theory Spec2Isabelle
  imports Main "HOL-Library.Word"
begin

unbundle bit_operations_syntax

section \<open>Common types\<close>

text \<open>
  The target is an LP64 platform: pointers, \<^verbatim>\<open>long\<close> and \<^verbatim>\<open>pthread_t\<close> are 64-bit words,
  \<^verbatim>\<open>char\<close> is a byte. \<^verbatim>\<open>NULL\<close> is the address 0.
\<close>

type_synonym addr = "64 word"
type_synonym long = "64 word"
type_synonym pthread_t = "64 word"

abbreviation NULL :: addr where "NULL \<equiv> 0"

text \<open>
  Ways in which the process is terminated instead of returning: a failed \<^verbatim>\<open>assert\<close>,
  an explicit \<^verbatim>\<open>exit(code)\<close>, and the undefined behaviour of an overflowing signed
  \<^verbatim>\<open>int\<close> computation.
\<close>

datatype fatal = Assertion_failed | Exit int | Int_overflow

section \<open>The wait-free queue of urcu/wfqueue.h\<close>

subsection \<open>Memory\<close>

text \<open>
  The queue is a linked structure whose \<^verbatim>\<open>tail\<close> field holds the address of a \<^verbatim>\<open>next\<close>
  field, so the model keeps one flat memory of pointer-sized cells, indexed by their
  address. \<^verbatim>\<open>struct wfq_node\<close> has the single member \<^verbatim>\<open>next\<close> (offset 0);
  \<^verbatim>\<open>struct wfq_queue\<close> has \<^verbatim>\<open>head\<close> at offset 0, \<^verbatim>\<open>tail\<close> at offset 8 and the embedded
  \<^verbatim>\<open>dummy\<close> node at offset 16.

  \<^verbatim>\<open>steps\<close> counts the times the running thread has let the others run (\<^verbatim>\<open>cpu_relax\<close>,
  \<^verbatim>\<open>poll\<close>). What the other threads do to the memory in the meantime is the
  environment \<open>E\<close>: at step \<open>n\<close> the memory \<open>m\<close> becomes \<open>E n m\<close>. The other
  threads are taken to run at these points only; between them the running thread is
  on its own.
\<close>

record wfq_world =
  mem :: "addr \<Rightarrow> addr"
  steps :: nat

type_synonym wfq_env = "nat \<Rightarrow> (addr \<Rightarrow> addr) \<Rightarrow> (addr \<Rightarrow> addr)"

definition head_of :: "addr \<Rightarrow> addr" where
  \<comment> \<open>\<^verbatim>\<open>&q->head\<close>\<close>
  "head_of q = q + 0"

definition tail_of :: "addr \<Rightarrow> addr" where
  \<comment> \<open>\<^verbatim>\<open>&q->tail\<close>\<close>
  "tail_of q = q + 8"

definition dummy_of :: "addr \<Rightarrow> addr" where
  \<comment> \<open>\<^verbatim>\<open>&q->dummy\<close>\<close>
  "dummy_of q = q + 16"

definition next_of :: "addr \<Rightarrow> addr" where
  \<comment> \<open>\<^verbatim>\<open>&node->next\<close>: the first member, so the node's own address\<close>
  "next_of node = node + 0"

definition WFQ_ADAPT_ATTEMPTS :: int where
  "WFQ_ADAPT_ATTEMPTS = 10"

definition WFQ_WAIT :: int where
  "WFQ_WAIT = 10"

definition cpu_relax :: "wfq_env \<Rightarrow> wfq_world \<Rightarrow> wfq_world" where
  "cpu_relax E s = s\<lparr>mem := E (steps s) (mem s), steps := Suc (steps s)\<rparr>"

definition poll :: "wfq_env \<Rightarrow> int \<Rightarrow> wfq_world \<Rightarrow> wfq_world" where
  \<comment> \<open>\<^verbatim>\<open>poll(NULL, 0, timeout)\<close>: sleeps, the other threads run\<close>
  "poll E timeout s = s\<lparr>mem := E (steps s) (mem s), steps := Suc (steps s)\<rparr>"

text \<open>
  Modelled from the spec: \<^verbatim>\<open>uatomic_xchg\<close> is a macro of urcu/uatomic_arch.h, which is
  not among the sources. The spec: an atomic exchange, which stores the new value in
  the cell and yields the old one.
\<close>

definition uatomic_xchg :: "addr \<Rightarrow> addr \<Rightarrow> wfq_world \<Rightarrow> addr \<times> wfq_world" where
  "uatomic_xchg a v s = (mem s a, s\<lparr>mem := (mem s)(a := v)\<rparr>)"

text \<open>
  Modelled from the spec: \<^verbatim>\<open>STORE_SHARED\<close> is a macro of urcu/system.h, which is not
  among the sources. The spec: a release-ordered store to one cell.
\<close>

definition STORE_SHARED :: "addr \<Rightarrow> addr \<Rightarrow> wfq_world \<Rightarrow> wfq_world" where
  "STORE_SHARED a v s = s\<lparr>mem := (mem s)(a := v)\<rparr>"

text \<open>
  Modelled from the spec: \<^verbatim>\<open>LOAD_SHARED\<close> is a macro of urcu/system.h, which is not among
  the sources. The spec: an atomic load of one cell.
\<close>

definition LOAD_SHARED :: "addr \<Rightarrow> wfq_world \<Rightarrow> addr" where
  "LOAD_SHARED a s = mem s a"

subsection \<open>Operations\<close>

definition wfq_node_init :: "addr \<Rightarrow> wfq_world \<Rightarrow> wfq_world" where
  "wfq_node_init node s = s\<lparr>mem := (mem s)(next_of node := NULL)\<rparr>"

text \<open>
  \<^verbatim>\<open>wfq_init\<close> asserts that \<^verbatim>\<open>pthread_mutex_init\<close> returned 0; that return value is the
  argument \<open>init_ret\<close>. The mutex itself serialises the callers of the dequeue and has
  no cell in the model.
\<close>

definition wfq_init :: "int \<Rightarrow> addr \<Rightarrow> wfq_world \<Rightarrow> fatal + wfq_world" where
  "wfq_init init_ret q s =
     (let s1 = wfq_node_init (dummy_of q) s;
          s2 = s1\<lparr>mem := (mem s1)(head_of q := dummy_of q)\<rparr>;
          s3 = s2\<lparr>mem := (mem s2)(tail_of q := next_of (dummy_of q))\<rparr>;
          ret = init_ret
      in if ret \<noteq> 0 then Inl Assertion_failed else Inr s3)"

text \<open>
  \<^verbatim>\<open>wfq_enqueue\<close> passes \<^verbatim>\<open>node\<close> itself to the exchange on \<^verbatim>\<open>q->tail\<close>, and then stores
  \<^verbatim>\<open>node\<close> through the old tail.
\<close>

definition wfq_enqueue :: "addr \<Rightarrow> addr \<Rightarrow> wfq_world \<Rightarrow> wfq_world" where
  "wfq_enqueue q node s =
     (let (old_tail, s1) = uatomic_xchg (tail_of q) node s
      in STORE_SHARED old_tail node s1)"

text \<open>
  The busy loop of \<^verbatim>\<open>__wfq_dequeue_blocking\<close>: it reads \<^verbatim>\<open>node->next\<close> until it is not
  \<^verbatim>\<open>NULL\<close>, sleeping every \<^verbatim>\<open>WFQ_ADAPT_ATTEMPTS\<close>-th round. It returns the value read;
  a loop that never sees a value is \<open>None\<close>.
\<close>

partial_function (option) wait_next ::
  "wfq_env \<Rightarrow> addr \<Rightarrow> int \<Rightarrow> wfq_world \<Rightarrow> (addr \<times> wfq_world) option" where
  "wait_next E node attempt s =
     (let next = LOAD_SHARED (next_of node) s in
      if next = NULL then
        (if attempt + 1 \<ge> WFQ_ADAPT_ATTEMPTS
         then wait_next E node 0 (poll E WFQ_WAIT s)
         else wait_next E node (attempt + 1) (cpu_relax E s))
      else Some (next, s))"

text \<open>
  \<^verbatim>\<open>__wfq_dequeue_blocking\<close> (an Isabelle name cannot start with an underscore). The
  result is the returned node, \<^verbatim>\<open>NULL\<close> for the empty queue, with the state; \<open>None\<close> is
  a call that never returns.
\<close>

partial_function (option) uu_wfq_dequeue_blocking ::
  "wfq_env \<Rightarrow> addr \<Rightarrow> wfq_world \<Rightarrow> (addr \<times> wfq_world) option" where
  "uu_wfq_dequeue_blocking E q s =
     (if mem s (head_of q) = dummy_of q \<and> LOAD_SHARED (tail_of q) s = next_of (dummy_of q)
      then Some (NULL, s)
      else
        let node = mem s (head_of q) in
        Option.bind (wait_next E node 0 s) (\<lambda>(next, s1).
          let s2 = s1\<lparr>mem := (mem s1)(head_of q := next)\<rparr> in
          if node = dummy_of q
          then uu_wfq_dequeue_blocking E q (wfq_enqueue q node (wfq_node_init node s2))
          else Some (node, s2)))"

text \<open>
  The same body with the self-call handed in as \<open>self\<close>: one activation of
  \<^verbatim>\<open>__wfq_dequeue_blocking\<close>. It serves to count how deep the recursion goes.
\<close>

definition dequeue_step ::
  "wfq_env \<Rightarrow> addr \<Rightarrow> (wfq_world \<Rightarrow> (addr \<times> wfq_world) option) \<Rightarrow> wfq_world
     \<Rightarrow> (addr \<times> wfq_world) option" where
  "dequeue_step E q self s =
     (if mem s (head_of q) = dummy_of q \<and> LOAD_SHARED (tail_of q) s = next_of (dummy_of q)
      then Some (NULL, s)
      else
        let node = mem s (head_of q) in
        Option.bind (wait_next E node 0 s) (\<lambda>(next, s1).
          let s2 = s1\<lparr>mem := (mem s1)(head_of q := next)\<rparr> in
          if node = dummy_of q
          then self (wfq_enqueue q node (wfq_node_init node s2))
          else Some (node, s2)))"

text \<open>
  The state in which \<^verbatim>\<open>__wfq_dequeue_blocking\<close> calls itself when the node at the head
  is the dummy: the head has moved to the dummy's successor, the dummy has been
  reinitialised and enqueued again.
\<close>

definition requeue_dummy :: "addr \<Rightarrow> wfq_world \<Rightarrow> wfq_world" where
  "requeue_dummy q s =
     wfq_enqueue q (dummy_of q) (wfq_node_init (dummy_of q)
       (s\<lparr>mem := (mem s)(head_of q := mem s (next_of (dummy_of q)))\<rparr>))"

subsection \<open>The queue between operations\<close>

text \<open>
  \<open>links m ns\<close>: in memory \<open>m\<close> the nodes \<open>ns\<close> are linked in this order and the last
  one has a \<^verbatim>\<open>NULL\<close> successor.
\<close>

fun links :: "(addr \<Rightarrow> addr) \<Rightarrow> addr list \<Rightarrow> bool" where
  "links m [] = True"
| "links m [n] = (m (next_of n) = NULL)"
| "links m (n # n' # ns) = (m (next_of n) = n' \<and> links m (n' # ns))"

text \<open>
  \<open>chain q s ns\<close>: \<^verbatim>\<open>q->head\<close> is the first of the distinct nodes \<open>ns\<close>, every node's
  \<^verbatim>\<open>next\<close> is published, and \<^verbatim>\<open>q->tail\<close> is the \<^verbatim>\<open>next\<close> field of the last one. No node
  lies on the queue's own \<^verbatim>\<open>head\<close> and \<^verbatim>\<open>tail\<close> fields. \<open>queue_is\<close> adds that the dummy
  is one of the nodes: the state of a queue on which no enqueue is half done.
\<close>

definition chain :: "addr \<Rightarrow> wfq_world \<Rightarrow> addr list \<Rightarrow> bool" where
  "chain q s ns \<longleftrightarrow>
     ns \<noteq> [] \<and> distinct ns \<and> NULL \<notin> set ns \<and>
     head_of q \<notin> next_of ` set ns \<and> tail_of q \<notin> next_of ` set ns \<and>
     mem s (head_of q) = hd ns \<and> mem s (tail_of q) = next_of (last ns) \<and>
     links (mem s) ns"

definition queue_is :: "addr \<Rightarrow> wfq_world \<Rightarrow> addr list \<Rightarrow> bool" where
  "queue_is q s ns \<longleftrightarrow> chain q s ns \<and> dummy_of q \<in> set ns"

text \<open>
  What the dequeuer relies on from the threads that run while it waits: they never
  leave the dummy's \<^verbatim>\<open>next\<close> pointing at the dummy itself, nor \<^verbatim>\<open>q->tail\<close> pointing at
  the queue's \<^verbatim>\<open>head\<close> field. \<open>sane q m\<close> says so of a memory, \<open>keeps_sane E q\<close> that no
  step of the environment breaks it. Enqueuers, which exchange the address of a fresh
  node into \<^verbatim>\<open>q->tail\<close> and store that node through the old tail, are of this kind.
\<close>

definition sane :: "addr \<Rightarrow> (addr \<Rightarrow> addr) \<Rightarrow> bool" where
  "sane q m \<longleftrightarrow> m (next_of (dummy_of q)) \<noteq> dummy_of q \<and> m (tail_of q) \<noteq> head_of q"

definition keeps_sane :: "wfq_env \<Rightarrow> addr \<Rightarrow> bool" where
  "keeps_sane E q \<longleftrightarrow> (\<forall>n m. sane q m \<longrightarrow> sane q (E n m))"

section \<open>The grace-period engine and the reader registry of urcu.c\<close>

text \<open>
  The model takes the default build: none of \<^verbatim>\<open>DEBUG_FULL_MB\<close>, \<^verbatim>\<open>HAS_INCOHERENT_CACHES\<close>,
  \<^verbatim>\<open>DISTRUST_SIGNALS_EXTREME\<close> and \<^verbatim>\<open>DEBUG_YIELD\<close> is defined, and \<^verbatim>\<open>assert\<close> is active.
\<close>

subsection \<open>State\<close>

record reader_registry =
  tid :: pthread_t
  urcu_active_readers :: addr
  need_mb :: addr

text \<open>
  A thread, as the code running on it sees it: what \<^verbatim>\<open>pthread_self()\<close> returns and the
  addresses of its two thread-local variables, \<^verbatim>\<open>&urcu_active_readers\<close> and \<^verbatim>\<open>&need_mb\<close>.
\<close>

record thread =
  pthread_self :: pthread_t
  tls_urcu_active_readers :: addr
  tls_need_mb :: addr

text \<open>
  The threads' thread-local variables, by address: the \<^verbatim>\<open>long\<close> cells
  (\<^verbatim>\<open>urcu_active_readers\<close>) and the \<^verbatim>\<open>char\<close> cells (\<^verbatim>\<open>need_mb\<close>). These are the cells that
  threads other than the writer store to.
\<close>

record tls_mem =
  long_at :: "addr \<Rightarrow> long"
  char_at :: "addr \<Rightarrow> 8 word"

text \<open>
  The calls that leave the writer's variables alone are kept as events, in the order
  in which they happen; so is each store to \<^verbatim>\<open>urcu_gp_ctr\<close>, with the value stored.
\<close>

datatype event =
    Mutex_lock
  | Mutex_unlock
  | Smp_mb
  | Smp_mc
  | Wmb
  | Store_gp_ctr long
  | Pthread_kill pthread_t
  | Poll int
  | Cpu_relax

text \<open>
  The globals of urcu.c, the memory they point into, and the history. \<^verbatim>\<open>registry\<close> is
  \<open>None\<close> for the \<^verbatim>\<open>NULL\<close> pointer and otherwise the allocated array. \<^verbatim>\<open>ptr_at\<close> holds the
  pointer cells that \<^verbatim>\<open>rcu_publish_content_sym\<close> exchanges. \<^verbatim>\<open>yields\<close> counts the points
  at which the writer has let the other threads run.
\<close>

record urcu_state =
  urcu_gp_ctr :: long
  registry :: "reader_registry list option"
  num_readers :: int
  alloc_readers :: int
  tls :: tls_mem
  ptr_at :: "addr \<Rightarrow> addr"
  trace :: "event list"
  yields :: nat

text \<open>
  What the code takes from outside urcu.c. \<^verbatim>\<open>RCU_GP_CTR_BIT\<close> is a constant of
  urcu-static.h, which is not among the sources; it is a parameter. \<open>interfere\<close> is what
  the other threads (readers, signal handlers) do to the thread-local cells when the
  writer lets them run: at the \<open>n\<close>-th such point \<open>m\<close> becomes \<open>interfere n m\<close>. The
  two return values are those of \<^verbatim>\<open>pthread_mutex_lock\<close> and \<^verbatim>\<open>pthread_mutex_unlock\<close>.
\<close>

record urcu_env =
  RCU_GP_CTR_BIT :: long
  interfere :: "nat \<Rightarrow> tls_mem \<Rightarrow> tls_mem"
  mutex_lock_ret :: int
  mutex_unlock_ret :: int

definition INIT_NUM_THREADS :: int where
  "INIT_NUM_THREADS = 4"

definition INT_MAX :: int where
  "INT_MAX = 2147483647"

subsection \<open>Primitives\<close>

text \<open>
  Modelled from the spec: \<^verbatim>\<open>smp_mb\<close>, \<^verbatim>\<open>smp_mc\<close>, \<^verbatim>\<open>wmb\<close> and \<^verbatim>\<open>cpu_relax\<close> are macros of
  the architecture headers, which are not among the sources. The spec: fences and a
  spin hint; they store to no variable. A fence is an event; \<^verbatim>\<open>cpu_relax\<close>,
  \<^verbatim>\<open>poll\<close> and \<^verbatim>\<open>pthread_kill\<close> are events at which the other threads run. The other
  threads are taken to run at these points only.
\<close>

definition log_event :: "event \<Rightarrow> urcu_state \<Rightarrow> urcu_state" where
  "log_event e s = s\<lparr>trace := trace s @ [e]\<rparr>"

definition yield :: "urcu_env \<Rightarrow> urcu_state \<Rightarrow> urcu_state" where
  "yield E s = s\<lparr>tls := interfere E (yields s) (tls s), yields := Suc (yields s)\<rparr>"

definition smp_mb :: "urcu_state \<Rightarrow> urcu_state" where
  "smp_mb s = log_event Smp_mb s"

definition smp_mc :: "urcu_state \<Rightarrow> urcu_state" where
  "smp_mc s = log_event Smp_mc s"

definition wmb :: "urcu_state \<Rightarrow> urcu_state" where
  "wmb s = log_event Wmb s"

definition pthread_kill :: "urcu_env \<Rightarrow> pthread_t \<Rightarrow> urcu_state \<Rightarrow> urcu_state" where
  \<comment> \<open>\<^verbatim>\<open>pthread_kill(t, SIGURCU)\<close>; the source ignores what it returns\<close>
  "pthread_kill E t s = yield E (log_event (Pthread_kill t) s)"

definition poll_rcu :: "urcu_env \<Rightarrow> int \<Rightarrow> urcu_state \<Rightarrow> urcu_state" where
  \<comment> \<open>\<^verbatim>\<open>poll(NULL, 0, timeout)\<close>\<close>
  "poll_rcu E timeout s = yield E (log_event (Poll timeout) s)"

definition cpu_relax_rcu :: "urcu_env \<Rightarrow> urcu_state \<Rightarrow> urcu_state" where
  "cpu_relax_rcu E s = yield E (log_event Cpu_relax s)"

definition store_need_mb :: "addr \<Rightarrow> 8 word \<Rightarrow> urcu_state \<Rightarrow> urcu_state" where
  \<comment> \<open>\<^verbatim>\<open>*index->need_mb = v\<close>\<close>
  "store_need_mb a v s = s\<lparr>tls := (tls s)\<lparr>char_at := (char_at (tls s))(a := v)\<rparr>\<rparr>"

text \<open>
  Modelled from the spec: \<^verbatim>\<open>rcu_old_gp_ongoing\<close> is an inline function of urcu-static.h,
  which is not among the sources. The spec: a reader is still in an old-parity critical
  section iff its \<open>active\<close> is not zero and \<open>(active ^ G) & PARITY_BIT\<close> is not zero.
\<close>

definition rcu_old_gp_ongoing :: "urcu_env \<Rightarrow> addr \<Rightarrow> urcu_state \<Rightarrow> bool" where
  "rcu_old_gp_ongoing E value s =
     (let v = long_at (tls s) value
      in v \<noteq> 0 \<and> (v XOR urcu_gp_ctr s) AND RCU_GP_CTR_BIT E \<noteq> 0)"

text \<open>
  Modelled from the spec: \<^verbatim>\<open>_rcu_xchg_pointer\<close> is a macro of urcu-static.h, which is not
  among the sources. The spec: an atomic exchange with a store fence, which returns the
  previous value.
\<close>

definition u_rcu_xchg_pointer :: "addr \<Rightarrow> addr \<Rightarrow> urcu_state \<Rightarrow> addr \<times> urcu_state" where
  "u_rcu_xchg_pointer p v s =
     (let s1 = wmb s in (ptr_at s1 p, s1\<lparr>ptr_at := (ptr_at s1)(p := v)\<rparr>))"

subsection \<open>The writer\<close>

definition internal_urcu_lock :: "urcu_env \<Rightarrow> urcu_state \<Rightarrow> fatal + urcu_state" where
  "internal_urcu_lock E s =
     (let ret = mutex_lock_ret E
      in if ret \<noteq> 0 then Inl (Exit (- 1)) else Inr (log_event Mutex_lock s))"

definition internal_urcu_unlock :: "urcu_env \<Rightarrow> urcu_state \<Rightarrow> fatal + urcu_state" where
  "internal_urcu_unlock E s =
     (let ret = mutex_unlock_ret E
      in if ret \<noteq> 0 then Inl (Exit (- 1)) else Inr (log_event Mutex_unlock s))"

definition switch_next_urcu_qparity :: "urcu_env \<Rightarrow> urcu_state \<Rightarrow> urcu_state" where
  "switch_next_urcu_qparity E s =
     (let v = urcu_gp_ctr s XOR RCU_GP_CTR_BIT E
      in log_event (Store_gp_ctr v) (s\<lparr>urcu_gp_ctr := v\<rparr>))"

text \<open>
  The entries both loops of the writer walk: \<^verbatim>\<open>registry[0]\<close> to
  \<^verbatim>\<open>registry[num_readers - 1]\<close>.
\<close>

definition live_readers :: "urcu_state \<Rightarrow> reader_registry list" where
  "live_readers s =
     (case registry s of None \<Rightarrow> [] | Some arr \<Rightarrow> take (nat (num_readers s)) arr)"

text \<open>A \<^verbatim>\<open>for\<close> loop over entries whose body may not return.\<close>

fun for_each :: "('a \<Rightarrow> 's \<Rightarrow> 's option) \<Rightarrow> 'a list \<Rightarrow> 's \<Rightarrow> 's option" where
  "for_each body [] s = Some s"
| "for_each body (x # xs) s = Option.bind (body x s) (for_each body xs)"

definition request_mb :: "urcu_env \<Rightarrow> reader_registry \<Rightarrow> urcu_state \<Rightarrow> urcu_state" where
  \<comment> \<open>the body of the first loop of \<^verbatim>\<open>force_mb_all_threads\<close>\<close>
  "request_mb E index s =
     pthread_kill E (tid index) (smp_mc (store_need_mb (need_mb index) 1 s))"

partial_function (option) wait_need_mb ::
  "urcu_env \<Rightarrow> reader_registry \<Rightarrow> urcu_state \<Rightarrow> urcu_state option" where
  \<comment> \<open>\<^verbatim>\<open>while (*index->need_mb) { pthread_kill(index->tid, SIGURCU); poll(NULL, 0, 1); }\<close>\<close>
  "wait_need_mb E index s =
     (if char_at (tls s) (need_mb index) \<noteq> 0
      then wait_need_mb E index (poll_rcu E 1 (pthread_kill E (tid index) s))
      else Some s)"

definition force_mb_all_threads :: "urcu_env \<Rightarrow> urcu_state \<Rightarrow> urcu_state option" where
  "force_mb_all_threads E s =
     (if registry s = None then Some s
      else
        let s1 = fold (request_mb E) (live_readers s) s in
        Option.bind (for_each (wait_need_mb E) (live_readers s1) s1) (\<lambda>s2.
        Some (smp_mb s2)))"

partial_function (option) wait_reader ::
  "urcu_env \<Rightarrow> reader_registry \<Rightarrow> urcu_state \<Rightarrow> urcu_state option" where
  \<comment> \<open>\<^verbatim>\<open>while (rcu_old_gp_ongoing(index->urcu_active_readers)) cpu_relax();\<close>\<close>
  "wait_reader E index s =
     (if rcu_old_gp_ongoing E (urcu_active_readers index) s
      then wait_reader E index (cpu_relax_rcu E s)
      else Some s)"

definition wait_for_quiescent_state :: "urcu_env \<Rightarrow> urcu_state \<Rightarrow> urcu_state option" where
  "wait_for_quiescent_state E s =
     (if registry s = None then Some s
      else for_each (wait_reader E) (live_readers s) s)"

text \<open>
  \<^verbatim>\<open>synchronize_rcu\<close>. \<open>None\<close>: the call never returns; \<open>Some (Inl e)\<close>: the process was
  terminated; \<open>Some (Inr s')\<close>: the call returned in state \<open>s'\<close>.
\<close>

definition synchronize_rcu :: "urcu_env \<Rightarrow> urcu_state \<Rightarrow> (fatal + urcu_state) option" where
  "synchronize_rcu E s =
     (case internal_urcu_lock E s of
        Inl e \<Rightarrow> Some (Inl e)
      | Inr s0 \<Rightarrow>
          Option.bind (force_mb_all_threads E s0) (\<lambda>s1.
          let s2 = smp_mb (switch_next_urcu_qparity E s1) in
          Option.bind (wait_for_quiescent_state E s2) (\<lambda>s3.
          let s4 = smp_mb (switch_next_urcu_qparity E (smp_mb s3)) in
          Option.bind (wait_for_quiescent_state E s4) (\<lambda>s5.
          Option.bind (force_mb_all_threads E s5) (\<lambda>s6.
          Some (internal_urcu_unlock E s6))))))"

definition rcu_publish_content_sym ::
  "urcu_env \<Rightarrow> addr \<Rightarrow> addr \<Rightarrow> urcu_state \<Rightarrow> (fatal + addr \<times> urcu_state) option" where
  "rcu_publish_content_sym E p v s =
     (let (oldptr, s1) = u_rcu_xchg_pointer p v s in
      case synchronize_rcu E s1 of
        None \<Rightarrow> None
      | Some (Inl e) \<Rightarrow> Some (Inl e)
      | Some (Inr s2) \<Rightarrow> Some (Inr (oldptr, s2)))"

text \<open>The stores to \<^verbatim>\<open>urcu_gp_ctr\<close> among some events, oldest first.\<close>

fun gp_stores :: "event list \<Rightarrow> long list" where
  "gp_stores [] = []"
| "gp_stores (Store_gp_ctr v # es) = v # gp_stores es"
| "gp_stores (e # es) = gp_stores es"

subsection \<open>The reader registry\<close>

text \<open>
  \<^verbatim>\<open>malloc\<close> returns memory that is not initialised: slot \<open>i\<close> of a fresh array holds
  \<open>fill i\<close>, whatever the allocator left there. The allocation itself is taken to
  succeed; the source does not test what \<^verbatim>\<open>malloc\<close> returns.
\<close>

definition malloc_registry :: "(nat \<Rightarrow> reader_registry) \<Rightarrow> nat \<Rightarrow> reader_registry list" where
  "malloc_registry fill n = map fill [0..<n]"

definition memcpy_registry ::
  "reader_registry list \<Rightarrow> reader_registry list \<Rightarrow> nat \<Rightarrow> reader_registry list" where
  \<comment> \<open>\<^verbatim>\<open>memcpy(dst, src, sizeof(struct reader_registry) * n)\<close>\<close>
  "memcpy_registry dst src n = take n src @ drop n dst"

text \<open>
  \<^verbatim>\<open>rcu_add_reader(id)\<close>, run by the thread \<open>self\<close>, whose thread-local addresses it
  stores. \<^verbatim>\<open>num_readers + 1\<close> and \<^verbatim>\<open>alloc_readers << 1\<close> are \<^verbatim>\<open>int\<close> computations; where
  they leave the range of \<^verbatim>\<open>int\<close> the behaviour is undefined, which the model reports as
  \<open>Int_overflow\<close>.
\<close>

definition rcu_add_reader ::
  "(nat \<Rightarrow> reader_registry) \<Rightarrow> thread \<Rightarrow> pthread_t \<Rightarrow> urcu_state \<Rightarrow> fatal + urcu_state" where
  "rcu_add_reader fill self id' s =
     (let (alloc, num, arr) =
            (case registry s of
               None \<Rightarrow> (INIT_NUM_THREADS, 0, malloc_registry fill (nat INIT_NUM_THREADS))
             | Some a \<Rightarrow> (alloc_readers s, num_readers s, a))
      in
      if INT_MAX < num + 1 then Inl Int_overflow
      else
        case (if alloc < num + 1
              then (if alloc < 0 \<or> INT_MAX < alloc * 2 then Inl Int_overflow
                    else Inr (alloc * 2,
                           memcpy_registry (malloc_registry fill (nat (alloc * 2))) arr
                             (nat alloc)))
              else Inr (alloc, arr)) of
          Inl e \<Rightarrow> Inl e
        | Inr (alloc', arr') \<Rightarrow>
            let n = nat num;
                arr1 = arr'[n := (arr' ! n)\<lparr>tid := id'\<rparr>];
                arr2 = arr1[n := (arr1 ! n)\<lparr>urcu_active_readers := tls_urcu_active_readers self\<rparr>];
                arr3 = arr2[n := (arr2 ! n)\<lparr>need_mb := tls_need_mb self\<rparr>]
            in Inr (s\<lparr>registry := Some arr3, alloc_readers := alloc', num_readers := num + 1\<rparr>))"

text \<open>
  The search loop of \<^verbatim>\<open>rcu_remove_reader\<close>: the index of the first entry, from index \<open>i\<close>
  on, whose \<^verbatim>\<open>tid\<close> is \<^verbatim>\<open>pthread_equal\<close> to \<open>id'\<close>.
\<close>

fun find_reader :: "pthread_t \<Rightarrow> reader_registry list \<Rightarrow> nat \<Rightarrow> nat option" where
  "find_reader id' [] i = None"
| "find_reader id' (e # es) i = (if tid e = id' then Some i else find_reader id' es (Suc i))"

definition rcu_remove_reader :: "pthread_t \<Rightarrow> urcu_state \<Rightarrow> fatal + urcu_state" where
  "rcu_remove_reader id' s =
     (case registry s of
        None \<Rightarrow> Inl Assertion_failed
      | Some arr \<Rightarrow>
          (case find_reader id' (take (nat (num_readers s)) arr) 0 of
             Some index \<Rightarrow>
               let l = nat (num_readers s - 1);
                   arr1 = arr[index := arr ! l];
                   arr2 = arr1[l := (arr1 ! l)\<lparr>tid := 0\<rparr>];
                   arr3 = arr2[l := (arr2 ! l)\<lparr>urcu_active_readers := NULL\<rparr>]
               in Inr (s\<lparr>registry := Some arr3, num_readers := num_readers s - 1\<rparr>)
           | None \<Rightarrow> Inl Assertion_failed))"

text \<open>
  The registry part of \<^verbatim>\<open>rcu_register_thread\<close> and \<^verbatim>\<open>rcu_unregister_thread\<close>, which call
  the two functions with \<^verbatim>\<open>pthread_self()\<close> while they hold the mutex, and a sequence of
  such calls; a terminated process makes no further call.
\<close>

datatype reg_op = Register thread | Unregister thread

fun apply_op :: "(nat \<Rightarrow> reader_registry) \<Rightarrow> reg_op \<Rightarrow> urcu_state \<Rightarrow> fatal + urcu_state" where
  "apply_op fill (Register t) s = rcu_add_reader fill t (pthread_self t) s"
| "apply_op fill (Unregister t) s = rcu_remove_reader (pthread_self t) s"

fun run_ops :: "(nat \<Rightarrow> reader_registry) \<Rightarrow> reg_op list \<Rightarrow> urcu_state \<Rightarrow> fatal + urcu_state" where
  "run_ops fill [] s = Inr s"
| "run_ops fill (x # xs) s =
     (case apply_op fill x s of Inl e \<Rightarrow> Inl e | Inr s' \<Rightarrow> run_ops fill xs s')"

text \<open>
  The thread handles registered after a sequence of calls that started with the
  handles \<open>R\<close> registered, and the sequences in which no thread registers while it is
  registered.
\<close>

fun registered_after :: "reg_op list \<Rightarrow> pthread_t set \<Rightarrow> pthread_t set" where
  "registered_after [] R = R"
| "registered_after (Register t # xs) R = registered_after xs (insert (pthread_self t) R)"
| "registered_after (Unregister t # xs) R = registered_after xs (R - {pthread_self t})"

fun registers_once :: "reg_op list \<Rightarrow> pthread_t set \<Rightarrow> bool" where
  "registers_once [] R = True"
| "registers_once (Register t # xs) R =
     (pthread_self t \<notin> R \<and> registers_once xs (insert (pthread_self t) R))"
| "registers_once (Unregister t # xs) R = registers_once xs (R - {pthread_self t})"

text \<open>
  The state of the statics when the program starts: \<^verbatim>\<open>registry\<close> is \<^verbatim>\<open>NULL\<close>, the two
  counters are 0, and \<^verbatim>\<open>urcu_gp_ctr\<close> is \<^verbatim>\<open>RCU_GP_COUNT\<close>, a constant of urcu-static.h
  that is taken as the parameter \<open>gp_count\<close>.
\<close>

definition urcu_start :: "long \<Rightarrow> tls_mem \<Rightarrow> (addr \<Rightarrow> addr) \<Rightarrow> urcu_state" where
  "urcu_start gp_count t p =
     \<lparr>urcu_gp_ctr = gp_count, registry = None, num_readers = 0, alloc_readers = 0,
      tls = t, ptr_at = p, trace = [], yields = 0\<rparr>"

text \<open>
  What holds of the registry between calls: before the first registration the statics
  are as at the start; afterwards the array has \<^verbatim>\<open>alloc_readers\<close> slots, of which the
  first \<^verbatim>\<open>num_readers\<close> are in use.
\<close>

definition registry_ok :: "urcu_state \<Rightarrow> bool" where
  "registry_ok s =
     (case registry s of
        None \<Rightarrow> num_readers s = 0 \<and> alloc_readers s = 0
      | Some arr \<Rightarrow>
          int (length arr) = alloc_readers s \<and> 0 \<le> num_readers s \<and>
          num_readers s \<le> alloc_readers s \<and> INIT_NUM_THREADS \<le> alloc_readers s \<and>
          alloc_readers s \<le> INT_MAX)"

text \<open>
  \<open>quiet s s'\<close>: from \<open>s\<close> to \<open>s'\<close> the writer's globals and the pointer cells have not
  changed, and the events added hold no store to \<^verbatim>\<open>urcu_gp_ctr\<close>.
\<close>

definition quiet :: "urcu_state \<Rightarrow> urcu_state \<Rightarrow> bool" where
  "quiet s s' \<longleftrightarrow>
     urcu_gp_ctr s' = urcu_gp_ctr s \<and> registry s' = registry s \<and>
     num_readers s' = num_readers s \<and> alloc_readers s' = alloc_readers s \<and>
     ptr_at s' = ptr_at s \<and> (\<exists>evs. trace s' = trace s @ evs \<and> gp_stores evs = [])"

text \<open>The recursive equations of the loops are their code equations.\<close>

declare wait_next.simps [code]
declare uu_wfq_dequeue_blocking.simps [code]
declare wait_need_mb.simps [code]
declare wait_reader.simps [code]

section \<open>Properties of the wait-free queue\<close>

lemma head_of_simp [simp]: "head_of q = q"
  by (simp add: head_of_def)

lemma next_of_simp [simp]: "next_of n = n"
  by (simp add: next_of_def)

lemma LOAD_SHARED_simp [simp]: "LOAD_SHARED a s = mem s a"
  by (simp add: LOAD_SHARED_def)

lemma queue_fields_distinct [simp]:
  "q \<noteq> tail_of q" "tail_of q \<noteq> q"
  "dummy_of q \<noteq> q" "q \<noteq> dummy_of q"
  "dummy_of q \<noteq> tail_of q" "tail_of q \<noteq> dummy_of q"
  by (simp_all add: dummy_of_def tail_of_def)

lemma links_frame:
  "\<forall>n \<in> set ns. m' n = m n \<Longrightarrow> links m' ns = links m ns"
  by (induction m ns rule: links.induct) auto

lemma links_upd_other [simp]:
  "a \<notin> set ns \<Longrightarrow> links (m(a := v)) ns = links m ns"
  by (rule links_frame) simp

lemma links_snoc:
  "ns \<noteq> [] \<Longrightarrow> distinct ns \<Longrightarrow> x \<notin> set ns \<Longrightarrow> links m ns \<Longrightarrow> m x = NULL \<Longrightarrow>
   links (m(last ns := x)) (ns @ [x])"
proof (induction m ns rule: links.induct)
  case (1 m)
  then show ?case by simp
next
  case (2 m n)
  then show ?case by simp
next
  case (3 m n n' ns)
  then show ?case by (auto simp: fun_upd_def)
qed

lemma wait_next_ready:
  "mem s (next_of node) \<noteq> NULL \<Longrightarrow>
   wait_next E node attempt s = Some (mem s (next_of node), s)"
  by (subst wait_next.simps) simp

lemma dequeue_unfold:
  "uu_wfq_dequeue_blocking E q s = dequeue_step E q (uu_wfq_dequeue_blocking E q) s"
  by (subst uu_wfq_dequeue_blocking.simps) (simp add: dequeue_step_def)

lemma chain_enqueue:
  assumes "chain q s ns" "node \<notin> set ns" "node \<noteq> NULL"
    "next_of node \<noteq> head_of q" "next_of node \<noteq> tail_of q" "mem s (next_of node) = NULL"
  shows "chain q (wfq_enqueue q node s) (ns @ [node])"
proof -
  from assms(1) have ne: "ns \<noteq> []" and d: "distinct ns" and l: "links (mem s) ns"
    and hq: "q \<notin> set ns" and tq: "tail_of q \<notin> set ns"
    and h: "mem s q = hd ns" and t: "mem s (tail_of q) = last ns"
    and nn: "NULL \<notin> set ns"
    by (auto simp: chain_def)
  have lst: "last ns \<in> set ns" using ne by simp
  have m': "mem (wfq_enqueue q node s) = (mem s)(tail_of q := node, last ns := node)"
    by (simp add: wfq_enqueue_def uatomic_xchg_def STORE_SHARED_def t)
  have l1: "links ((mem s)(tail_of q := node)) ns" using l tq by simp
  have "((mem s)(tail_of q := node)) node = NULL"
    using assms(5,6) by simp
  with l1 have "links ((mem s)(tail_of q := node, last ns := node)) (ns @ [node])"
    using links_snoc [OF ne d assms(2)] by blast
  moreover have "last ns \<noteq> q" "last ns \<noteq> tail_of q"
    using lst hq tq by auto
  ultimately show ?thesis
    using assms ne d nn hq tq h
    by (auto simp: chain_def m')
qed

lemma chain_advance:
  assumes "chain q s (a # b # rest)"
  shows "chain q (s\<lparr>mem := (mem s)(head_of q := b)\<rparr>) (b # rest)"
  using assms by (auto simp: chain_def)

lemma chain_next:
  "chain q s (a # b # rest) \<Longrightarrow> mem s a = b \<and> b \<noteq> NULL \<and> mem s q = a"
  by (auto simp: chain_def)

lemma chain_tail_not_head:
  assumes "chain q s (a # b # rest)"
  shows "mem s (tail_of q) \<noteq> a"
proof -
  have "last (b # rest) \<in> set (b # rest)" by (rule last_in_set) simp
  moreover have "a \<notin> set (b # rest)" "mem s (tail_of q) = last (b # rest)"
    using assms by (auto simp: chain_def)
  ultimately show ?thesis by metis
qed

lemma chain_node_init:
  assumes "chain q s ns" "node \<notin> set ns" "next_of node \<noteq> head_of q"
    "next_of node \<noteq> tail_of q"
  shows "chain q (wfq_node_init node s) ns \<and> mem (wfq_node_init node s) (next_of node) = NULL"
  using assms by (auto simp: chain_def wfq_node_init_def)

lemma step_plain:
  assumes "chain q s (a # b # rest)" "a \<noteq> dummy_of q"
  shows "dequeue_step E q self s = Some (a, s\<lparr>mem := (mem s)(head_of q := b)\<rparr>)"
proof -
  from chain_next [OF assms(1)] have "mem s a = b" "b \<noteq> NULL" "mem s q = a"
    by simp_all
  then show ?thesis using assms(2)
    by (simp add: dequeue_step_def wait_next_ready Let_def)
qed

lemma step_dummy:
  assumes "chain q s (dummy_of q # b # rest)"
  shows "dequeue_step E q self s = self (requeue_dummy q s)"
proof -
  from chain_next [OF assms] have n: "mem s (dummy_of q) = b" "b \<noteq> NULL"
    "mem s q = dummy_of q" by simp_all
  from chain_tail_not_head [OF assms] n show ?thesis
    by (simp add: dequeue_step_def wait_next_ready requeue_dummy_def Let_def)
qed

lemma step_empty:
  assumes "queue_is q s [d]"
  shows "dequeue_step E q self s = Some (NULL, s)"
  using assms by (simp add: queue_is_def chain_def dequeue_step_def)

lemma chain_requeue_dummy:
  assumes "chain q s (dummy_of q # b # rest)"
  shows "chain q (requeue_dummy q s) (b # rest @ [dummy_of q])"
proof -
  let ?s2 = "s\<lparr>mem := (mem s)(head_of q := mem s (next_of (dummy_of q)))\<rparr>"
  from chain_next [OF assms] have n: "mem s (dummy_of q) = b" by simp
  have c2: "chain q ?s2 (b # rest)" using chain_advance [OF assms] n by simp
  have notin: "dummy_of q \<notin> set (b # rest)" using assms by (auto simp: chain_def)
  from chain_node_init [OF c2 notin]
  have c3: "chain q (wfq_node_init (dummy_of q) ?s2) (b # rest)"
    and z: "mem (wfq_node_init (dummy_of q) ?s2) (next_of (dummy_of q)) = NULL"
    by simp_all
  have "dummy_of q \<noteq> NULL" using assms by (auto simp: chain_def)
  from chain_enqueue [OF c3 notin this _ _ z]
  show ?thesis by (simp add: requeue_dummy_def)
qed

text \<open>What a dequeue returns, by the shape of the queue.\<close>

lemma dequeue_empty:
  assumes "queue_is q s [d]"
  shows "uu_wfq_dequeue_blocking E q s = Some (NULL, s)"
  by (simp add: dequeue_unfold step_empty [OF assms])

lemma dequeue_plain:
  assumes "chain q s (a # b # rest)" "a \<noteq> dummy_of q"
  shows "uu_wfq_dequeue_blocking E q s = Some (a, s\<lparr>mem := (mem s)(head_of q := b)\<rparr>)"
  by (simp add: dequeue_unfold step_plain [OF assms])

lemma dequeue_dummy_recurses:
  assumes "chain q s (dummy_of q # b # rest)"
  shows "uu_wfq_dequeue_blocking E q s = uu_wfq_dequeue_blocking E q (requeue_dummy q s)"
  by (subst dequeue_unfold) (simp add: step_dummy [OF assms])

lemma dequeue_after_requeue:
  assumes "chain q s (dummy_of q # b # rest)"
  shows "mem (requeue_dummy q s) (head_of q) = b \<and> b \<noteq> dummy_of q \<and>
         uu_wfq_dequeue_blocking E q (requeue_dummy q s) =
           Some (b, (requeue_dummy q s)\<lparr>mem := (mem (requeue_dummy q s))
                      (head_of q := mem (requeue_dummy q s) (next_of b))\<rparr>) \<and>
         dequeue_step E q self (requeue_dummy q s) =
           uu_wfq_dequeue_blocking E q (requeue_dummy q s)"
proof -
  have c: "chain q (requeue_dummy q s) (b # rest @ [dummy_of q])"
    by (rule chain_requeue_dummy [OF assms])
  have nd: "b \<noteq> dummy_of q" using assms by (auto simp: chain_def)
  obtain c' rest' where r: "rest @ [dummy_of q] = c' # rest'"
    by (cases "rest @ [dummy_of q]") auto
  with c have c': "chain q (requeue_dummy q s) (b # c' # rest')" by simp
  from chain_next [OF c'] have "mem (requeue_dummy q s) b = c'"
    "mem (requeue_dummy q s) q = b" by simp_all
  then show ?thesis
    using nd dequeue_plain [OF c' nd, of E] step_plain [OF c' nd, of E self] by simp
qed

lemma queue_shapes:
  assumes "queue_is q s ns"
  obtains "ns = [dummy_of q]"
  | b rest where "ns = dummy_of q # b # rest"
  | a b rest where "ns = a # b # rest" "a \<noteq> dummy_of q"
proof (cases ns)
  case Nil
  with assms show ?thesis by (simp add: queue_is_def chain_def)
next
  case (Cons a ns')
  show ?thesis
  proof (cases ns')
    case Nil
    with Cons assms have "ns = [dummy_of q]" by (simp add: queue_is_def)
    then show ?thesis by (rule that(1))
  next
    case (Cons b rest)
    with \<open>ns = a # ns'\<close> show ?thesis
      by (cases "a = dummy_of q") (auto intro: that(2) that(3))
  qed
qed

text \<open>
  The busy loop returns what it read last, which is not \<^verbatim>\<open>NULL\<close>; the memory it
  returns in is sane when the memory it started in was and the environment keeps it so.
\<close>

lemma wait_next_result:
  assumes "wait_next E node attempt s = Some (nxt, s1)"
  shows "nxt = mem s1 (next_of node) \<and> nxt \<noteq> NULL \<and>
         (keeps_sane E q \<longrightarrow> sane q (mem s) \<longrightarrow> sane q (mem s1))"
proof -
  have "fst (nxt, s1) = mem (snd (nxt, s1)) node \<and> fst (nxt, s1) \<noteq> NULL \<and>
    (keeps_sane E q \<longrightarrow> sane q (mem s) \<longrightarrow> sane q (mem (snd (nxt, s1))))"
  proof (rule wait_next.raw_induct [where P = "\<lambda>E node attempt s y.
    fst y = mem (snd y) node \<and> fst y \<noteq> NULL \<and>
    (keeps_sane E q \<longrightarrow> sane q (mem s) \<longrightarrow> sane q (mem (snd y)))", OF _ assms])
    fix wait E node attempt s y
    assume ih: "\<And>E node attempt s y. wait E node attempt s = Some y \<Longrightarrow>
        fst y = mem (snd y) node \<and> fst y \<noteq> NULL \<and>
        (keeps_sane E q \<longrightarrow> sane q (mem s) \<longrightarrow> sane q (mem (snd y)))"
      and body: "(let next = LOAD_SHARED (next_of node) s in
        if next = NULL
        then if WFQ_ADAPT_ATTEMPTS \<le> attempt + 1 then wait E node 0 (poll E WFQ_WAIT s)
             else wait E node (attempt + 1) (cpu_relax E s)
        else Some (next, s)) = Some y"
    have step: "keeps_sane E q \<Longrightarrow> sane q (mem s) \<Longrightarrow> sane q (mem (poll E WFQ_WAIT s))"
      "keeps_sane E q \<Longrightarrow> sane q (mem s) \<Longrightarrow> sane q (mem (cpu_relax E s))"
      by (simp_all add: keeps_sane_def poll_def cpu_relax_def)
    show "fst y = mem (snd y) node \<and> fst y \<noteq> NULL \<and>
        (keeps_sane E q \<longrightarrow> sane q (mem s) \<longrightarrow> sane q (mem (snd y)))"
    proof (cases "mem s node = NULL")
      case False
      with body show ?thesis by (auto simp: Let_def)
    next
      case True
      show ?thesis
      proof (cases "WFQ_ADAPT_ATTEMPTS \<le> attempt + 1")
        case True
        with \<open>mem s node = NULL\<close> body
        have "wait E node 0 (poll E WFQ_WAIT s) = Some y" by (simp add: Let_def)
        from ih [OF this] step(1) show ?thesis by blast
      next
        case False
        with \<open>mem s node = NULL\<close> body
        have "wait E node (attempt + 1) (cpu_relax E s) = Some y" by (simp add: Let_def)
        from ih [OF this] step(2) show ?thesis by blast
      qed
    qed
  qed
  then show ?thesis by auto
qed

lemma dequeue_empty_state:
  assumes "mem s (head_of q) = dummy_of q" "mem s (tail_of q) = next_of (dummy_of q)"
  shows "uu_wfq_dequeue_blocking E q s = Some (NULL, s)"
  using assms by (subst uu_wfq_dequeue_blocking.simps) simp

text \<open>Whatever the state and the environment, a node that is returned is not the dummy.\<close>

lemma dequeue_never_dummy:
  assumes "uu_wfq_dequeue_blocking E q s = Some (r, s')" "r \<noteq> NULL"
  shows "r \<noteq> dummy_of q"
proof -
  have "fst (r, s') \<noteq> NULL \<longrightarrow> fst (r, s') \<noteq> dummy_of q"
  proof (rule uu_wfq_dequeue_blocking.raw_induct [where P = "\<lambda>E q s y.
      fst y \<noteq> NULL \<longrightarrow> fst y \<noteq> dummy_of q", OF _ assms(1)])
    fix deq E q s y
    assume ih: "\<And>E q s y. deq E q s = Some y \<Longrightarrow> fst y \<noteq> NULL \<longrightarrow> fst y \<noteq> dummy_of q"
      and body: "(if mem s (head_of q) = dummy_of q \<and>
            LOAD_SHARED (tail_of q) s = next_of (dummy_of q)
         then Some (NULL, s)
         else let node = mem s (head_of q)
              in Option.bind (wait_next E node 0 s)
                  (\<lambda>(next, s1).
                      let s2 = s1\<lparr>mem := (mem s1)(head_of q := next)\<rparr>
                      in if node = dummy_of q
                         then deq E q (wfq_enqueue q node (wfq_node_init node s2))
                         else Some (node, s2))) = Some y"
    show "fst y \<noteq> NULL \<longrightarrow> fst y \<noteq> dummy_of q"
    proof (cases "mem s (head_of q) = dummy_of q \<and>
            LOAD_SHARED (tail_of q) s = next_of (dummy_of q)")
      case True
      with body show ?thesis by auto
    next
      case False
      with body obtain nxt s1 where
        w: "wait_next E (mem s (head_of q)) 0 s = Some (nxt, s1)" and
        r: "(if mem s (head_of q) = dummy_of q
             then deq E q (wfq_enqueue q (mem s (head_of q))
                    (wfq_node_init (mem s (head_of q))
                      (s1\<lparr>mem := (mem s1)(head_of q := nxt)\<rparr>)))
             else Some (mem s (head_of q), s1\<lparr>mem := (mem s1)(head_of q := nxt)\<rparr>)) = Some y"
        by (auto simp: Let_def bind_eq_Some_conv simp del: head_of_simp next_of_simp
            LOAD_SHARED_simp)
      show ?thesis
      proof (cases "mem s (head_of q) = dummy_of q")
        case True
        with r ih show ?thesis by simp
      next
        case False
        with r show ?thesis by auto
      qed
    qed
  qed
  with assms(2) show ?thesis by simp
qed

lemma dequeue_step_nonempty:
  assumes "\<not> (mem s (head_of q) = dummy_of q \<and> mem s (tail_of q) = next_of (dummy_of q))"
  shows "dequeue_step E q self s =
    (case wait_next E (mem s (head_of q)) 0 s of
       None \<Rightarrow> None
     | Some (nxt, s1) \<Rightarrow>
         if mem s (head_of q) = dummy_of q
         then self (wfq_enqueue q (dummy_of q) (wfq_node_init (dummy_of q)
                (s1\<lparr>mem := (mem s1)(head_of q := nxt)\<rparr>)))
         else Some (mem s (head_of q), s1\<lparr>mem := (mem s1)(head_of q := nxt)\<rparr>))"
proof -
  have "dequeue_step E q self s =
     Option.bind (wait_next E (mem s (head_of q)) 0 s) (\<lambda>(nxt, s1).
       if mem s (head_of q) = dummy_of q
       then self (wfq_enqueue q (mem s (head_of q)) (wfq_node_init (mem s (head_of q))
              (s1\<lparr>mem := (mem s1)(head_of q := nxt)\<rparr>)))
       else Some (mem s (head_of q), s1\<lparr>mem := (mem s1)(head_of q := nxt)\<rparr>))"
    using assms by (simp only: dequeue_step_def LOAD_SHARED_def Let_def if_not_P if_False)
  then show ?thesis
    by (cases "wait_next E (mem s (head_of q)) 0 s") (auto split: if_splits)
qed

text \<open>
  With threads at work that keep the memory sane, a dequeue that returns \<^verbatim>\<open>NULL\<close> found
  the queue empty at entry: it does not report an empty queue while an enqueue is
  half done.
\<close>

lemma dequeue_null_only_if_empty:
  assumes ks: "keeps_sane E q" and sn: "sane q (mem s)" and hd: "mem s (head_of q) \<noteq> NULL"
    and r: "uu_wfq_dequeue_blocking E q s = Some (NULL, s')"
  shows "mem s (head_of q) = dummy_of q \<and> mem s (tail_of q) = next_of (dummy_of q)"
proof (rule ccontr)
  assume ne: "\<not> (mem s (head_of q) = dummy_of q \<and> mem s (tail_of q) = next_of (dummy_of q))"
  let ?node = "mem s (head_of q)"
  from r have st: "dequeue_step E q (uu_wfq_dequeue_blocking E q) s = Some (NULL, s')"
    using dequeue_unfold [of E q s] by simp
  show False
  proof (cases "wait_next E ?node 0 s")
    case None
    with st show False by (simp only: dequeue_step_nonempty [OF ne]) simp
  next
    case (Some y)
    obtain nxt s1 where y: "y = (nxt, s1)" by (cases y)
    from Some y have w: "wait_next E ?node 0 s = Some (nxt, s1)" by simp
    from wait_next_result [OF w, of q] ks sn
    have "nxt = mem s1 ?node \<and> nxt \<noteq> NULL \<and> sane q (mem s1)" by auto
    then have nx: "nxt = mem s1 ?node" "nxt \<noteq> NULL" and s1: "sane q (mem s1)" by blast+
    let ?t = "wfq_enqueue q (dummy_of q) (wfq_node_init (dummy_of q)
                (s1\<lparr>mem := (mem s1)(head_of q := nxt)\<rparr>))"
    from st have c: "(if ?node = dummy_of q then uu_wfq_dequeue_blocking E q ?t
        else Some (?node, s1\<lparr>mem := (mem s1)(head_of q := nxt)\<rparr>)) = Some (NULL, s')"
      by (simp only: dequeue_step_nonempty [OF ne] w option.case prod.case)
    show False
    proof (cases "?node = dummy_of q")
      case False
      with c hd show False by simp
    next
      case True
      with c have d: "uu_wfq_dequeue_blocking E q ?t = Some (NULL, s')" by simp
      from s1 nx True have nd: "nxt \<noteq> dummy_of q" "mem s1 (tail_of q) \<noteq> q"
        by (simp_all add: sane_def)
      have ht: "mem ?t (head_of q) = nxt"
        using nd(2)
        by (simp add: wfq_enqueue_def wfq_node_init_def uatomic_xchg_def STORE_SHARED_def)
      with nd(1) have ne2: "\<not> (mem ?t (head_of q) = dummy_of q \<and>
          mem ?t (tail_of q) = next_of (dummy_of q))" by simp
      from d have st2: "dequeue_step E q (uu_wfq_dequeue_blocking E q) ?t = Some (NULL, s')"
        using dequeue_unfold [of E q ?t] by simp
      show False
      proof (cases "wait_next E nxt 0 ?t")
        case None
        with st2 show False by (simp only: dequeue_step_nonempty [OF ne2] ht) simp
      next
        case (Some y2)
        with st2 nd(1) nx(2) show False
          by (cases y2) (simp only: dequeue_step_nonempty [OF ne2] ht, simp)
      qed
    qed
  qed
qed

lemma links_last: "links m ns \<Longrightarrow> ns \<noteq> [] \<Longrightarrow> m (last ns) = NULL"
  by (induction m ns rule: links.induct) auto

lemma requeue_dummy_state:
  assumes "chain q s (dummy_of q # b # rest)"
  shows "mem (requeue_dummy q s) (next_of (dummy_of q)) = NULL"
    "mem (requeue_dummy q s) (tail_of q) = next_of (dummy_of q)"
    "mem (requeue_dummy q s) (head_of q) = mem s (next_of (dummy_of q))"
    "steps (requeue_dummy q s) = steps s"
proof -
  have c: "chain q (requeue_dummy q s) (b # rest @ [dummy_of q])"
    by (rule chain_requeue_dummy [OF assms])
  then have "links (mem (requeue_dummy q s)) (b # rest @ [dummy_of q])"
    by (simp add: chain_def)
  from links_last [OF this] show "mem (requeue_dummy q s) (next_of (dummy_of q)) = NULL"
    by simp
  from c show "mem (requeue_dummy q s) (tail_of q) = next_of (dummy_of q)"
    by (simp add: chain_def)
  from c chain_next [OF assms]
  show "mem (requeue_dummy q s) (head_of q) = mem s (next_of (dummy_of q))"
    by (simp add: chain_def)
  show "steps (requeue_dummy q s) = steps s"
    by (simp add: requeue_dummy_def wfq_enqueue_def uatomic_xchg_def STORE_SHARED_def
        wfq_node_init_def)
qed

text \<open>
  The invariant is the one the operations keep: \<^verbatim>\<open>wfq_init\<close> establishes it, an enqueue
  of a fresh initialised node and a dequeue preserve it.
\<close>

lemma queue_is_init:
  assumes "dummy_of q \<noteq> NULL"
  shows "\<exists>s'. wfq_init 0 q s = Inr s' \<and> queue_is q s' [dummy_of q]"
  using assms
  by (simp add: wfq_init_def wfq_node_init_def queue_is_def chain_def Let_def)

lemma queue_is_enqueue:
  assumes "queue_is q s ns" "node \<notin> set ns" "node \<noteq> NULL"
    "next_of node \<noteq> head_of q" "next_of node \<noteq> tail_of q" "mem s (next_of node) = NULL"
  shows "queue_is q (wfq_enqueue q node s) (ns @ [node])"
  using assms chain_enqueue [of q s ns node] by (simp add: queue_is_def)

lemma queue_is_dequeue:
  assumes "queue_is q s ns" "uu_wfq_dequeue_blocking E q s = Some (r, s')"
  shows "queue_is q s' (if r = NULL then ns else
           removeAll r (if hd ns = dummy_of q then tl ns @ [dummy_of q] else ns)) \<and>
         steps s' = steps s"
proof (rule queue_shapes [OF assms(1)])
  assume "ns = [dummy_of q]"
  with assms dequeue_empty [of q s "dummy_of q" E] show ?thesis by simp
next
  fix b rest assume ns: "ns = dummy_of q # b # rest"
  with assms have c: "chain q s (dummy_of q # b # rest)" by (simp add: queue_is_def)
  let ?t = "requeue_dummy q s"
  have c1: "chain q ?t (b # rest @ [dummy_of q])" by (rule chain_requeue_dummy [OF c])
  obtain c' rest' where r: "rest @ [dummy_of q] = c' # rest'"
    by (cases "rest @ [dummy_of q]") auto
  with c1 have c2: "chain q ?t (b # c' # rest')" by simp
  from chain_next [OF c2] have nx: "mem ?t b = c'" by simp
  from chain_advance [OF c2] have c3: "chain q (?t\<lparr>mem := (mem ?t)(head_of q := c')\<rparr>)
     (rest @ [dummy_of q])" by (simp add: r)
  from chain_next [OF c] have "b \<noteq> NULL" by simp
  moreover have "s' = ?t\<lparr>mem := (mem ?t)(head_of q := c')\<rparr>" "r = b"
    using assms(2) dequeue_dummy_recurses [OF c, of E] dequeue_after_requeue [OF c, of E] nx
    by simp_all
  moreover have "b \<notin> set rest" "b \<noteq> dummy_of q" using c by (auto simp: chain_def)
  ultimately show ?thesis using c3 ns requeue_dummy_state(4) [OF c]
    by (simp add: queue_is_def)
next
  fix a b rest assume ns: "ns = a # b # rest" "a \<noteq> dummy_of q"
  with assms have c: "chain q s (a # b # rest)" by (simp add: queue_is_def)
  from chain_advance [OF c] have c3: "chain q (s\<lparr>mem := (mem s)(head_of q := b)\<rparr>) (b # rest)" .
  have "a \<noteq> NULL" "a \<notin> set (b # rest)" using c by (auto simp: chain_def)
  moreover have "s' = s\<lparr>mem := (mem s)(head_of q := b)\<rparr>" "r = a"
    using assms(2) dequeue_plain [OF c ns(2), of E] by simp_all
  ultimately show ?thesis using c3 ns assms(1)
    by (auto simp: queue_is_def)
qed

text \<open>
  C1. \<^verbatim>\<open>wfq_enqueue(q, node)\<close> is two steps: the exchange on \<^verbatim>\<open>q->tail\<close>, which yields the
  old tail and changes that one cell, and the store of \<^verbatim>\<open>node\<close> through the old tail.
  After the exchange \<^verbatim>\<open>q->tail\<close> is \<^verbatim>\<open>&node->next\<close>; the source hands the exchange
  \<^verbatim>\<open>node\<close>, which is the same address, \<^verbatim>\<open>next\<close> being the first member. On a queue, for
  a node with \<^verbatim>\<open>next == NULL\<close> that is not in it, the old tail is the \<^verbatim>\<open>next\<close> field of
  the last node: after the exchange that field is still \<^verbatim>\<open>NULL\<close>, and after the store
  the node is the new last node of the queue.
\<close>

theorem wfq_enqueue_two_steps:
  "wfq_enqueue q node s =
     STORE_SHARED (fst (uatomic_xchg (tail_of q) node s)) node
       (snd (uatomic_xchg (tail_of q) node s)) \<and>
   fst (uatomic_xchg (tail_of q) node s) = mem s (tail_of q) \<and>
   mem (snd (uatomic_xchg (tail_of q) node s)) = (mem s)(tail_of q := next_of node) \<and>
   mem (snd (uatomic_xchg (tail_of q) node s)) (tail_of q) = next_of node \<and>
   mem (wfq_enqueue q node s) =
     (mem s)(tail_of q := next_of node, mem s (tail_of q) := node) \<and>
   steps (wfq_enqueue q node s) = steps s \<and>
   (queue_is q s ns \<and> node \<notin> set ns \<and> node \<noteq> NULL \<and>
    next_of node \<noteq> head_of q \<and> next_of node \<noteq> tail_of q \<and>
    mem s (next_of node) = NULL \<longrightarrow>
      fst (uatomic_xchg (tail_of q) node s) = next_of (last ns) \<and>
      mem (snd (uatomic_xchg (tail_of q) node s)) (next_of (last ns)) = NULL \<and>
      mem (wfq_enqueue q node s) (tail_of q) = next_of node \<and>
      mem (wfq_enqueue q node s) (next_of (last ns)) = node \<and>
      queue_is q (wfq_enqueue q node s) (ns @ [node]))"
proof -
  have "fst (uatomic_xchg (tail_of q) node s) = next_of (last ns) \<and>
      mem (snd (uatomic_xchg (tail_of q) node s)) (next_of (last ns)) = NULL \<and>
      mem (wfq_enqueue q node s) (tail_of q) = next_of node \<and>
      mem (wfq_enqueue q node s) (next_of (last ns)) = node \<and>
      queue_is q (wfq_enqueue q node s) (ns @ [node])"
    if a: "queue_is q s ns \<and> node \<notin> set ns \<and> node \<noteq> NULL \<and>
      next_of node \<noteq> head_of q \<and> next_of node \<noteq> tail_of q \<and> mem s (next_of node) = NULL"
  proof -
    from a have c: "chain q s ns" by (simp add: queue_is_def)
    then have t: "mem s (tail_of q) = last ns" and ne: "ns \<noteq> []"
      and l: "links (mem s) ns" and tq: "tail_of q \<notin> set ns"
      by (auto simp: chain_def)
    from links_last [OF l ne] have z: "mem s (last ns) = NULL" .
    from ne tq have lt: "last ns \<noteq> tail_of q" using last_in_set [OF ne] by metis
    from a queue_is_enqueue [of q s ns node]
    have "queue_is q (wfq_enqueue q node s) (ns @ [node])" by simp
    with t z lt a show ?thesis
      by (simp add: wfq_enqueue_def uatomic_xchg_def STORE_SHARED_def)
  qed
  moreover have "wfq_enqueue q node s =
     STORE_SHARED (fst (uatomic_xchg (tail_of q) node s)) node
       (snd (uatomic_xchg (tail_of q) node s)) \<and>
   fst (uatomic_xchg (tail_of q) node s) = mem s (tail_of q) \<and>
   mem (snd (uatomic_xchg (tail_of q) node s)) = (mem s)(tail_of q := next_of node) \<and>
   mem (snd (uatomic_xchg (tail_of q) node s)) (tail_of q) = next_of node \<and>
   mem (wfq_enqueue q node s) =
     (mem s)(tail_of q := next_of node, mem s (tail_of q) := node) \<and>
   steps (wfq_enqueue q node s) = steps s"
    by (simp add: wfq_enqueue_def uatomic_xchg_def STORE_SHARED_def)
  ultimately show ?thesis by blast
qed

theorem wfq_enqueue_two_steps_witness:
  "queue_is 4096 \<lparr>mem = (\<lambda>_. 0)(4096 := 4112, 4104 := 8192, 4112 := 8192), steps = 0\<rparr>
     [4112, 8192] \<and>
   queue_is 4096
     (wfq_enqueue 4096 12288
        \<lparr>mem = (\<lambda>_. 0)(4096 := 4112, 4104 := 8192, 4112 := 8192), steps = 0\<rparr>)
     [4112, 8192, 12288] \<and>
   mem (snd (uatomic_xchg (tail_of 4096) 12288
        \<lparr>mem = (\<lambda>_. 0)(4096 := 4112, 4104 := 8192, 4112 := 8192), steps = 0\<rparr>)) 4104 = 12288 \<and>
   mem (snd (uatomic_xchg (tail_of 4096) 12288
        \<lparr>mem = (\<lambda>_. 0)(4096 := 4112, 4104 := 8192, 4112 := 8192), steps = 0\<rparr>)) 8192 = NULL"
proof -
  let ?s = "\<lparr>mem = (\<lambda>_. 0)(4096 := 4112, 4104 := 8192, 4112 := (8192 :: addr)), steps = 0\<rparr>"
  have h: "queue_is 4096 ?s [4112, 8192]"
    by (simp add: queue_is_def chain_def dummy_of_def tail_of_def)
  have p: "(12288 :: addr) \<notin> set [4112, 8192]" "(12288 :: addr) \<noteq> NULL"
    "next_of 12288 \<noteq> head_of 4096" "next_of 12288 \<noteq> tail_of 4096"
    "mem ?s (next_of 12288) = NULL"
    by (simp_all add: tail_of_def)
  from wfq_enqueue_two_steps [of 4096 12288 ?s "[4112, 8192]"] h p
  have "queue_is 4096 (wfq_enqueue 4096 12288 ?s) ([4112, 8192] @ [12288])"
    "mem (snd (uatomic_xchg (tail_of 4096) 12288 ?s)) (next_of (last [4112, 8192])) = NULL"
    "mem (snd (uatomic_xchg (tail_of 4096) 12288 ?s)) (tail_of 4096) = next_of 12288"
    by blast+
  with h show ?thesis by (simp add: tail_of_def)
qed

text \<open>
  C3. \<^verbatim>\<open>__wfq_dequeue_blocking\<close> returns \<^verbatim>\<open>NULL\<close> exactly when at entry
  \<^verbatim>\<open>q->head == &q->dummy\<close> and \<^verbatim>\<open>q->tail == &q->dummy.next\<close>. In that state it returns
  \<^verbatim>\<open>NULL\<close> at once and changes nothing, whatever else holds. On a queue on which no
  enqueue is half done it returns, and with \<^verbatim>\<open>NULL\<close> in that state only. And with other
  threads at work that keep the memory sane, any call that returns, returns \<^verbatim>\<open>NULL\<close> in
  that state only. There is no failing outcome: the empty answer is a returned value.
\<close>

theorem dequeue_null_iff_empty:
  "(mem s (head_of q) = dummy_of q \<and> mem s (tail_of q) = next_of (dummy_of q) \<longrightarrow>
      uu_wfq_dequeue_blocking E q s = Some (NULL, s)) \<and>
   (queue_is q s ns \<longrightarrow>
      (\<exists>r s'. uu_wfq_dequeue_blocking E q s = Some (r, s') \<and>
         (r = NULL \<longleftrightarrow>
            mem s (head_of q) = dummy_of q \<and> mem s (tail_of q) = next_of (dummy_of q)))) \<and>
   (keeps_sane E q \<and> sane q (mem s) \<and> mem s (head_of q) \<noteq> NULL \<and>
    uu_wfq_dequeue_blocking E q s = Some (r, s') \<longrightarrow>
      (r = NULL \<longleftrightarrow>
         mem s (head_of q) = dummy_of q \<and> mem s (tail_of q) = next_of (dummy_of q)))"
proof (intro conjI impI)
  assume "mem s (head_of q) = dummy_of q \<and> mem s (tail_of q) = next_of (dummy_of q)"
  then show "uu_wfq_dequeue_blocking E q s = Some (NULL, s)"
    by (simp add: dequeue_empty_state)
next
  assume inv: "queue_is q s ns"
  show "\<exists>r s'. uu_wfq_dequeue_blocking E q s = Some (r, s') \<and>
         (r = NULL \<longleftrightarrow>
            mem s (head_of q) = dummy_of q \<and> mem s (tail_of q) = next_of (dummy_of q))"
  proof (rule queue_shapes [OF inv])
    assume "ns = [dummy_of q]"
    with inv have "mem s q = dummy_of q" "mem s (tail_of q) = dummy_of q"
      by (simp_all add: queue_is_def chain_def)
    then show ?thesis using dequeue_empty [of q s "dummy_of q" E] inv \<open>ns = [dummy_of q]\<close>
      by simp
  next
    fix b rest assume ns: "ns = dummy_of q # b # rest"
    with inv have c: "chain q s (dummy_of q # b # rest)" by (simp add: queue_is_def)
    from chain_next [OF c] have "b \<noteq> NULL" by simp
    moreover note chain_tail_not_head [OF c] dequeue_after_requeue [OF c, of E]
      dequeue_dummy_recurses [OF c, of E]
    ultimately show ?thesis by simp
  next
    fix a b rest assume ns: "ns = a # b # rest" "a \<noteq> dummy_of q"
    with inv have c: "chain q s (a # b # rest)" by (simp add: queue_is_def)
    then have "a \<noteq> NULL" by (auto simp: chain_def)
    moreover from chain_next [OF c] have "mem s q = a" by simp
    ultimately show ?thesis using dequeue_plain [OF c ns(2), of E] ns(2) by simp
  qed
next
  assume a: "keeps_sane E q \<and> sane q (mem s) \<and> mem s (head_of q) \<noteq> NULL \<and>
    uu_wfq_dequeue_blocking E q s = Some (r, s')"
  show "r = NULL \<longleftrightarrow>
         mem s (head_of q) = dummy_of q \<and> mem s (tail_of q) = next_of (dummy_of q)"
  proof
    assume "r = NULL"
    with a dequeue_null_only_if_empty [of E q s s']
    show "mem s (head_of q) = dummy_of q \<and> mem s (tail_of q) = next_of (dummy_of q)"
      by blast
  next
    assume "mem s (head_of q) = dummy_of q \<and> mem s (tail_of q) = next_of (dummy_of q)"
    then have "uu_wfq_dequeue_blocking E q s = Some (NULL, s)"
      by (simp add: dequeue_empty_state)
    with a show "r = NULL" by simp
  qed
qed

text \<open>
  Two runs: a queue that holds one node, and a queue on which an enqueuer has
  exchanged the tail but not yet stored through the old tail, which it does while the
  dequeuer waits.
\<close>

theorem dequeue_null_iff_empty_witness:
  "queue_is 4096 \<lparr>mem = (\<lambda>_. 0)(4096 := 4112, 4104 := 8192, 4112 := 8192), steps = 0\<rparr>
     [4112, 8192] \<and>
   (\<exists>r s'. uu_wfq_dequeue_blocking (\<lambda>n m. m) 4096
        \<lparr>mem = (\<lambda>_. 0)(4096 := 4112, 4104 := 8192, 4112 := 8192), steps = 0\<rparr> = Some (r, s') \<and>
      r \<noteq> NULL) \<and>
   keeps_sane (\<lambda>n m. if 2 \<le> n then m(4112 := 8192) else m) 4096 \<and>
   sane 4096 ((\<lambda>_. 0)(4096 := 4112, 4104 := 8192)) \<and>
   (\<exists>s'. uu_wfq_dequeue_blocking (\<lambda>n m. if 2 \<le> n then m(4112 := 8192) else m) 4096
        \<lparr>mem = (\<lambda>_. 0)(4096 := 4112, 4104 := 8192), steps = 0\<rparr> = Some (8192, s') \<and>
      steps s' = 3)"
proof -
  let ?s = "\<lparr>mem = (\<lambda>_. 0)(4096 := 4112, 4104 := 8192, 4112 := (8192 :: addr)), steps = 0\<rparr>"
  let ?E = "\<lambda>(n::nat) (m :: addr \<Rightarrow> addr). if 2 \<le> n then m(4112 := 8192) else m"
  let ?t = "\<lparr>mem = (\<lambda>_. 0)(4096 := 4112, 4104 := (8192 :: addr)), steps = 0\<rparr>"
  have h: "queue_is 4096 ?s [4112, 8192]"
    by (simp add: queue_is_def chain_def dummy_of_def tail_of_def)
  from dequeue_null_iff_empty [of ?s 4096 "\<lambda>n m. m" "[4112, 8192]"] h
  have 1: "\<exists>r s'. uu_wfq_dequeue_blocking (\<lambda>n m. m) 4096 ?s = Some (r, s') \<and> r \<noteq> NULL"
    by (auto simp: tail_of_def dummy_of_def)
  have k: "keeps_sane ?E 4096" "sane 4096 (mem ?t)" "mem ?t (head_of 4096) \<noteq> NULL"
    by (simp_all add: keeps_sane_def sane_def dummy_of_def tail_of_def)
  have "map_option (\<lambda>(r, s'). (r, steps s')) (uu_wfq_dequeue_blocking ?E 4096 ?t) =
        Some (8192, 3)"
    by code_simp
  then obtain s' where r: "uu_wfq_dequeue_blocking ?E 4096 ?t = Some (8192, s')"
    "steps s' = 3"
    by (cases "uu_wfq_dequeue_blocking ?E 4096 ?t") auto
  from dequeue_null_iff_empty [of ?t 4096 ?E "[]" 8192 s'] k r(1)
  have "(8192 :: addr) \<noteq> NULL" by simp
  with h 1 k r show ?thesis by auto
qed

text \<open>
  C4. Whatever the state and whatever the other threads do, a node that the dequeue
  returns is not the dummy. On a non-empty queue on which no enqueue is half done it
  returns one of the queue's other nodes, and when the node at the head is the dummy,
  the call is the recursive call in the state where the head has moved on and the
  dummy, with \<^verbatim>\<open>next\<close> reset to \<^verbatim>\<open>NULL\<close>, has been enqueued again, so that it is the last
  node.
\<close>

theorem dequeue_result_not_dummy:
  "(\<forall>r s'. uu_wfq_dequeue_blocking E q s = Some (r, s') \<and> r \<noteq> NULL \<longrightarrow> r \<noteq> dummy_of q) \<and>
   (queue_is q s ns \<and>
    \<not> (mem s (head_of q) = dummy_of q \<and> mem s (tail_of q) = next_of (dummy_of q)) \<longrightarrow>
      (\<exists>r s'. uu_wfq_dequeue_blocking E q s = Some (r, s') \<and>
           r \<noteq> NULL \<and> r \<noteq> dummy_of q \<and> r \<in> set ns \<and>
           (mem s (head_of q) = dummy_of q \<longrightarrow>
              uu_wfq_dequeue_blocking E q s =
                uu_wfq_dequeue_blocking E q (requeue_dummy q s) \<and>
              mem (requeue_dummy q s) (next_of (dummy_of q)) = NULL \<and>
              mem (requeue_dummy q s) (tail_of q) = next_of (dummy_of q) \<and>
              mem (requeue_dummy q s) (head_of q) = mem s (next_of (dummy_of q)))))"
proof (intro conjI allI impI)
  fix r s' assume "uu_wfq_dequeue_blocking E q s = Some (r, s') \<and> r \<noteq> NULL"
  then show "r \<noteq> dummy_of q" using dequeue_never_dummy [of E q s r s'] by blast
next
  assume a: "queue_is q s ns \<and>
    \<not> (mem s (head_of q) = dummy_of q \<and> mem s (tail_of q) = next_of (dummy_of q))"
  then have inv: "queue_is q s ns" by simp
  show "\<exists>r s'. uu_wfq_dequeue_blocking E q s = Some (r, s') \<and>
           r \<noteq> NULL \<and> r \<noteq> dummy_of q \<and> r \<in> set ns \<and>
           (mem s (head_of q) = dummy_of q \<longrightarrow>
              uu_wfq_dequeue_blocking E q s =
                uu_wfq_dequeue_blocking E q (requeue_dummy q s) \<and>
              mem (requeue_dummy q s) (next_of (dummy_of q)) = NULL \<and>
              mem (requeue_dummy q s) (tail_of q) = next_of (dummy_of q) \<and>
              mem (requeue_dummy q s) (head_of q) = mem s (next_of (dummy_of q)))"
  proof (rule queue_shapes [OF inv])
    assume "ns = [dummy_of q]"
    with a show ?thesis by (auto simp: queue_is_def chain_def)
  next
    fix b rest assume ns: "ns = dummy_of q # b # rest"
    with inv have c: "chain q s (dummy_of q # b # rest)" by (simp add: queue_is_def)
    from chain_next [OF c] have "b \<noteq> NULL" by simp
    moreover note dequeue_after_requeue [OF c, of E] dequeue_dummy_recurses [OF c, of E]
      requeue_dummy_state(1,2,3) [OF c]
    ultimately show ?thesis using ns by simp
  next
    fix a' b rest assume ns: "ns = a' # b # rest" "a' \<noteq> dummy_of q"
    with inv have c: "chain q s (a' # b # rest)" by (simp add: queue_is_def)
    then have "a' \<noteq> NULL" by (auto simp: chain_def)
    moreover from chain_next [OF c] have "mem s q = a'" by simp
    ultimately show ?thesis using dequeue_plain [OF c ns(2), of E] ns by simp
  qed
qed

theorem dequeue_result_not_dummy_witness:
  "queue_is 4096
     \<lparr>mem = (\<lambda>_. 0)(4096 := 4112, 4104 := 12288, 4112 := 8192, 8192 := 12288), steps = 0\<rparr>
     [4112, 8192, 12288] \<and>
   (\<exists>r s'. uu_wfq_dequeue_blocking (\<lambda>n m. m) 4096
        \<lparr>mem = (\<lambda>_. 0)(4096 := 4112, 4104 := 12288, 4112 := 8192, 8192 := 12288), steps = 0\<rparr>
          = Some (r, s') \<and>
      r \<noteq> NULL \<and> r \<noteq> 4112 \<and> r \<in> {4112, 8192, 12288})"
proof -
  let ?s = "\<lparr>mem = (\<lambda>_. 0)(4096 := 4112, 4104 := 12288, 4112 := 8192, 8192 := (12288 :: addr)),
              steps = 0\<rparr>"
  have h: "queue_is 4096 ?s [4112, 8192, 12288]"
    by (simp add: queue_is_def chain_def dummy_of_def tail_of_def)
  have n: "\<not> (mem ?s (head_of 4096) = dummy_of 4096 \<and>
               mem ?s (tail_of 4096) = next_of (dummy_of 4096))"
    by (simp add: dummy_of_def tail_of_def)
  from dequeue_result_not_dummy [of "\<lambda>n m. m" 4096 ?s "[4112, 8192, 12288]"] h n
  show ?thesis
    by (auto simp: dummy_of_def)
qed

lemma dequeue_two_activations:
  assumes ks: "keeps_sane E q" and sn: "sane q (mem s)"
  shows "uu_wfq_dequeue_blocking E q s =
           dequeue_step E q (dequeue_step E q (\<lambda>_. None)) s"
proof (cases "mem s (head_of q) = dummy_of q \<and> mem s (tail_of q) = next_of (dummy_of q)")
  case True
  then show ?thesis by (simp add: dequeue_empty_state dequeue_step_def)
next
  case ne: False
  let ?node = "mem s (head_of q)"
  show ?thesis
  proof (cases "wait_next E ?node 0 s")
    case None
    then show ?thesis
      by (subst dequeue_unfold) (simp only: dequeue_step_nonempty [OF ne], simp)
  next
    case (Some y)
    obtain nxt s1 where y: "y = (nxt, s1)" by (cases y)
    from Some y have w: "wait_next E ?node 0 s = Some (nxt, s1)" by simp
    from wait_next_result [OF w, of q] ks sn
    have "nxt = mem s1 ?node \<and> nxt \<noteq> NULL \<and> sane q (mem s1)" by auto
    then have nx: "nxt = mem s1 ?node" "nxt \<noteq> NULL" and s1: "sane q (mem s1)" by blast+
    let ?t = "wfq_enqueue q (dummy_of q) (wfq_node_init (dummy_of q)
                (s1\<lparr>mem := (mem s1)(head_of q := nxt)\<rparr>))"
    have u: "dequeue_step E q self s =
        (if ?node = dummy_of q then self ?t
         else Some (?node, s1\<lparr>mem := (mem s1)(head_of q := nxt)\<rparr>))" for self
      by (simp only: dequeue_step_nonempty [OF ne] w option.case prod.case)
    show ?thesis
    proof (cases "?node = dummy_of q")
      case False
      then show ?thesis by (subst dequeue_unfold) (simp only: u if_False)
    next
      case True
      from s1 nx True have nd: "nxt \<noteq> dummy_of q" "mem s1 (tail_of q) \<noteq> q"
        by (simp_all add: sane_def)
      have ht: "mem ?t (head_of q) = nxt"
        using nd(2)
        by (simp add: wfq_enqueue_def wfq_node_init_def uatomic_xchg_def STORE_SHARED_def)
      with nd(1) have ne2: "\<not> (mem ?t (head_of q) = dummy_of q \<and>
          mem ?t (tail_of q) = next_of (dummy_of q))" by simp
      have "dequeue_step E q self ?t = dequeue_step E q (\<lambda>_. None) ?t" for self
        using nd(1) by (simp only: dequeue_step_nonempty [OF ne2] ht if_False)
      then have "uu_wfq_dequeue_blocking E q ?t = dequeue_step E q (\<lambda>_. None) ?t"
        by (subst dequeue_unfold)
      with True show ?thesis by (subst dequeue_unfold) (simp only: u if_True)
    qed
  qed
qed

lemma queue_is_sane: "queue_is q s ns \<Longrightarrow> sane q (mem s) \<and> mem s (head_of q) \<noteq> NULL"
proof (rule queue_shapes, assumption)
  assume "queue_is q s ns" "ns = [dummy_of q]"
  then show ?thesis by (auto simp: queue_is_def chain_def sane_def)
next
  fix b rest assume "queue_is q s ns" "ns = dummy_of q # b # rest"
  then show ?thesis by (auto simp: queue_is_def chain_def sane_def)
next
  fix a b rest assume a: "queue_is q s ns" "ns = a # b # rest" "a \<noteq> dummy_of q"
  then have "dummy_of q \<in> set (b # rest)" "links (mem s) (a # b # rest)"
    "distinct (a # b # rest)" "NULL \<notin> set (a # b # rest)"
    by (auto simp: queue_is_def chain_def)
  then have "mem s (dummy_of q) \<noteq> dummy_of q"
  proof (induction "mem s" "a # b # rest" arbitrary: a b rest rule: links.induct)
    case (3 n n' ns)
    show ?case
    proof (cases "n' = dummy_of q")
      case True
      with 3 show ?thesis by (cases ns) auto
    next
      case False
      with 3 obtain c ns' where "ns = c # ns'" by (cases ns) auto
      with 3 False show ?thesis by auto
    qed
  qed
  with a show ?thesis by (auto simp: queue_is_def chain_def sane_def)
qed

text \<open>
  C10. \<^verbatim>\<open>__wfq_dequeue_blocking\<close> is two activations of its body at most: unrolled
  twice, with a third activation replaced by a call that never returns, it gives the
  same result. This holds whenever the memory is sane and the other threads keep it
  so, since the head that the recursive call finds is not the dummy. On a queue whose
  nodes all have their \<^verbatim>\<open>next\<close> published (up to the last one, at the tail), the
  function returns; when the head is the dummy and the queue is not empty, the
  recursive call returns the node it finds at the head without a further call.
\<close>

theorem dequeue_recursion_depth:
  "(keeps_sane E q \<and> sane q (mem s) \<longrightarrow>
      uu_wfq_dequeue_blocking E q s =
        dequeue_step E q (dequeue_step E q (\<lambda>_. None)) s) \<and>
   (queue_is q s ns \<longrightarrow>
      uu_wfq_dequeue_blocking E q s =
        dequeue_step E q (dequeue_step E q (\<lambda>_. None)) s \<and>
      uu_wfq_dequeue_blocking E q s \<noteq> None \<and>
      (mem s (head_of q) = dummy_of q \<and> mem s (tail_of q) \<noteq> next_of (dummy_of q) \<longrightarrow>
         mem (requeue_dummy q s) (head_of q) \<noteq> dummy_of q \<and>
         uu_wfq_dequeue_blocking E q s = dequeue_step E q (\<lambda>_. None) (requeue_dummy q s) \<and>
         dequeue_step E q (\<lambda>_. None) (requeue_dummy q s) =
           Some (mem (requeue_dummy q s) (head_of q),
             (requeue_dummy q s)\<lparr>mem := (mem (requeue_dummy q s))
                (head_of q := mem (requeue_dummy q s)
                   (next_of (mem (requeue_dummy q s) (head_of q))))\<rparr>)))"
proof (intro conjI impI)
  assume "keeps_sane E q \<and> sane q (mem s)"
  then show "uu_wfq_dequeue_blocking E q s =
      dequeue_step E q (dequeue_step E q (\<lambda>_. None)) s"
    by (simp add: dequeue_two_activations)
next
  assume inv: "queue_is q s ns"
  show "uu_wfq_dequeue_blocking E q s =
      dequeue_step E q (dequeue_step E q (\<lambda>_. None)) s"
  proof (rule queue_shapes [OF inv])
    assume ns: "ns = [dummy_of q]"
    then show ?thesis
      using dequeue_empty [of q s "dummy_of q" E] step_empty [of q s "dummy_of q" E] inv
      by simp
  next
    fix b rest assume ns: "ns = dummy_of q # b # rest"
    with inv have c: "chain q s (dummy_of q # b # rest)" by (simp add: queue_is_def)
    from dequeue_after_requeue [OF c, of E "\<lambda>_. None"] dequeue_dummy_recurses [OF c, of E]
      step_dummy [OF c, of E "dequeue_step E q (\<lambda>_. None)"]
    show ?thesis by simp
  next
    fix a b rest assume ns: "ns = a # b # rest" "a \<noteq> dummy_of q"
    with inv have c: "chain q s (a # b # rest)" by (simp add: queue_is_def)
    then show ?thesis
      using dequeue_plain [OF c ns(2), of E]
        step_plain [OF c ns(2), of E "dequeue_step E q (\<lambda>_. None)"]
      by simp
  qed
next
  assume inv: "queue_is q s ns"
  show "uu_wfq_dequeue_blocking E q s \<noteq> None"
  proof (rule queue_shapes [OF inv])
    assume ns: "ns = [dummy_of q]"
    then show ?thesis using dequeue_empty [of q s "dummy_of q" E] inv by simp
  next
    fix b rest assume ns: "ns = dummy_of q # b # rest"
    with inv have c: "chain q s (dummy_of q # b # rest)" by (simp add: queue_is_def)
    from dequeue_after_requeue [OF c, of E "\<lambda>_. None"] dequeue_dummy_recurses [OF c, of E]
    show ?thesis by simp
  next
    fix a b rest assume ns: "ns = a # b # rest" "a \<noteq> dummy_of q"
    with inv have c: "chain q s (a # b # rest)" by (simp add: queue_is_def)
    then show ?thesis using dequeue_plain [OF c ns(2), of E] by simp
  qed
next
  assume inv: "queue_is q s ns"
    and d: "mem s (head_of q) = dummy_of q \<and> mem s (tail_of q) \<noteq> next_of (dummy_of q)"
  have "\<exists>b rest. ns = dummy_of q # b # rest"
  proof (rule queue_shapes [OF inv])
    assume "ns = [dummy_of q]"
    with inv d show ?thesis by (auto simp: queue_is_def chain_def)
  next
    fix b rest assume "ns = dummy_of q # b # rest"
    then show ?thesis by blast
  next
    fix a b rest assume ns: "ns = a # b # rest" "a \<noteq> dummy_of q"
    with inv have "chain q s (a # b # rest)" by (simp add: queue_is_def)
    from chain_next [OF this] d ns(2) show ?thesis by simp
  qed
  then obtain b rest where ns: "ns = dummy_of q # b # rest" by blast
  with inv have c: "chain q s (dummy_of q # b # rest)" by (simp add: queue_is_def)
  note a = dequeue_after_requeue [OF c, of E "\<lambda>_. None"]
  from a show "mem (requeue_dummy q s) (head_of q) \<noteq> dummy_of q" by simp
  from a dequeue_dummy_recurses [OF c, of E]
  show "uu_wfq_dequeue_blocking E q s = dequeue_step E q (\<lambda>_. None) (requeue_dummy q s)"
    by simp
  from a show "dequeue_step E q (\<lambda>_. None) (requeue_dummy q s) =
           Some (mem (requeue_dummy q s) (head_of q),
             (requeue_dummy q s)\<lparr>mem := (mem (requeue_dummy q s))
                (head_of q := mem (requeue_dummy q s)
                   (next_of (mem (requeue_dummy q s) (head_of q))))\<rparr>)"
    by simp
qed

theorem dequeue_recursion_depth_witness:
  "queue_is 4096 \<lparr>mem = (\<lambda>_. 0)(4096 := 4112, 4104 := 8192, 4112 := 8192), steps = 7\<rparr>
     [4112, 8192] \<and>
   uu_wfq_dequeue_blocking (\<lambda>n m. m) 4096
      \<lparr>mem = (\<lambda>_. 0)(4096 := 4112, 4104 := 8192, 4112 := 8192), steps = 7\<rparr> =
     dequeue_step (\<lambda>n m. m) 4096 (dequeue_step (\<lambda>n m. m) 4096 (\<lambda>_. None))
      \<lparr>mem = (\<lambda>_. 0)(4096 := 4112, 4104 := 8192, 4112 := 8192), steps = 7\<rparr> \<and>
   uu_wfq_dequeue_blocking (\<lambda>n m. m) 4096
      \<lparr>mem = (\<lambda>_. 0)(4096 := 4112, 4104 := 8192, 4112 := 8192), steps = 7\<rparr> \<noteq> None \<and>
   keeps_sane (\<lambda>n m. if 12 \<le> n then m(4112 := 8192) else m) 4096 \<and>
   sane 4096 ((\<lambda>_. 0)(4096 := 4112, 4104 := 8192)) \<and>
   uu_wfq_dequeue_blocking (\<lambda>n m. if 12 \<le> n then m(4112 := 8192) else m) 4096
      \<lparr>mem = (\<lambda>_. 0)(4096 := 4112, 4104 := 8192), steps = 0\<rparr> =
     dequeue_step (\<lambda>n m. if 12 \<le> n then m(4112 := 8192) else m) 4096
       (dequeue_step (\<lambda>n m. if 12 \<le> n then m(4112 := 8192) else m) 4096 (\<lambda>_. None))
      \<lparr>mem = (\<lambda>_. 0)(4096 := 4112, 4104 := 8192), steps = 0\<rparr>"
proof -
  let ?s = "\<lparr>mem = (\<lambda>_. 0)(4096 := 4112, 4104 := 8192, 4112 := (8192 :: addr)), steps = 7\<rparr>"
  let ?E = "\<lambda>(n::nat) (m :: addr \<Rightarrow> addr). if 12 \<le> n then m(4112 := 8192) else m"
  let ?t = "\<lparr>mem = (\<lambda>_. 0)(4096 := 4112, 4104 := (8192 :: addr)), steps = 0\<rparr>"
  have h: "queue_is 4096 ?s [4112, 8192]"
    by (simp add: queue_is_def chain_def dummy_of_def tail_of_def)
  have k: "keeps_sane ?E 4096" "sane 4096 (mem ?t)"
    by (simp_all add: keeps_sane_def sane_def dummy_of_def tail_of_def)
  from dequeue_recursion_depth [of "\<lambda>n m. m" 4096 ?s "[4112, 8192]"] h
  have 1: "uu_wfq_dequeue_blocking (\<lambda>n m. m) 4096 ?s =
      dequeue_step (\<lambda>n m. m) 4096 (dequeue_step (\<lambda>n m. m) 4096 (\<lambda>_. None)) ?s"
    "uu_wfq_dequeue_blocking (\<lambda>n m. m) 4096 ?s \<noteq> None"
    by blast+
  from dequeue_recursion_depth [of ?E 4096 ?t "[]"] k
  have 2: "uu_wfq_dequeue_blocking ?E 4096 ?t =
      dequeue_step ?E 4096 (dequeue_step ?E 4096 (\<lambda>_. None)) ?t"
    by blast
  from h 1 k 2 show ?thesis by simp
qed

section \<open>Properties of the reader registry\<close>

lemma find_reader_None: "find_reader id' es i = None \<longleftrightarrow> id' \<notin> tid ` set es"
  by (induction es arbitrary: i) auto

lemma find_reader_Some:
  "find_reader id' es i = Some j \<Longrightarrow>
   i \<le> j \<and> j - i < length es \<and> tid (es ! (j - i)) = id' \<and> (\<forall>k < j - i. tid (es ! k) \<noteq> id')"
proof (induction es arbitrary: i)
  case Nil
  then show ?case by simp
next
  case (Cons e es)
  show ?case
  proof (cases "tid e = id'")
    case True
    with Cons.prems show ?thesis by simp
  next
    case False
    with Cons.prems have f: "find_reader id' es (Suc i) = Some j" by simp
    from Cons.IH [OF f] have ih: "Suc i \<le> j" "j - Suc i < length es"
      "tid (es ! (j - Suc i)) = id'" "\<forall>k < j - Suc i. tid (es ! k) \<noteq> id'" by simp_all
    from ih(1) have e: "j - i = Suc (j - Suc i)" by simp
    have "\<forall>k < j - i. tid ((e # es) ! k) \<noteq> id'"
    proof (intro allI impI)
      fix k assume "k < j - i"
      then show "tid ((e # es) ! k) \<noteq> id'"
        using False ih(4) e by (cases k) auto
    qed
    with ih e show ?thesis by simp
  qed
qed

lemma live_readers_Some:
  "registry s = Some arr \<Longrightarrow> live_readers s = take (nat (num_readers s)) arr"
  by (simp add: live_readers_def)

lemma live_readers_length:
  "registry_ok s \<Longrightarrow> int (length (live_readers s)) = num_readers s"
  by (auto simp: registry_ok_def live_readers_def split: option.splits)

lemma swap_with_last:
  assumes "0 < n" "n \<le> length arr" "i < n"
  shows "take (n - 1) (arr[i := arr ! (n - 1), n - 1 := z]) =
         butlast ((take n arr)[i := last (take n arr)])"
proof -
  have ne: "take n arr \<noteq> []" and len: "length (take n arr) = n"
    using assms by auto
  have "last (take n arr) = take n arr ! (length (take n arr) - 1)"
    using ne by (rule last_conv_nth)
  also have "\<dots> = arr ! (n - 1)"
    using assms by (simp add: min_def)
  finally have la: "last (take n arr) = arr ! (n - 1)" .
  have "take (n - 1) (arr[i := arr ! (n - 1), n - 1 := z]) =
        take (n - 1) (arr[i := arr ! (n - 1)])"
    by simp
  also have "\<dots> = (take (n - 1) arr)[i := arr ! (n - 1)]"
    by (rule take_update_swap)
  finally have lhs: "take (n - 1) (arr[i := arr ! (n - 1), n - 1 := z]) =
        (take (n - 1) arr)[i := arr ! (n - 1)]" .
  have "butlast ((take n arr)[i := arr ! (n - 1)]) =
        take (n - 1) ((take n arr)[i := arr ! (n - 1)])"
    using assms(2) by (simp add: butlast_conv_take min_def)
  also have "\<dots> = (take (n - 1) (take n arr))[i := arr ! (n - 1)]"
    by (rule take_update_swap)
  also have "\<dots> = (take (n - 1) arr)[i := arr ! (n - 1)]"
    by (simp add: min_def)
  finally show ?thesis by (simp only: lhs la)
qed

lemma rcu_remove_reader_found:
  assumes ok: "registry_ok s" and f: "find_reader id' (live_readers s) 0 = Some i"
  shows "\<exists>s'. rcu_remove_reader id' s = Inr s' \<and>
           live_readers s' = butlast ((live_readers s)[i := last (live_readers s)]) \<and>
           num_readers s' = num_readers s - 1 \<and> alloc_readers s' = alloc_readers s \<and>
           registry_ok s' \<and> urcu_gp_ctr s' = urcu_gp_ctr s \<and> tls s' = tls s \<and>
           ptr_at s' = ptr_at s \<and> trace s' = trace s \<and> yields s' = yields s"
proof -
  from f obtain arr where arr: "registry s = Some arr"
    by (cases "registry s") (auto simp: live_readers_def)
  let ?n = "nat (num_readers s)"
  have live: "live_readers s = take ?n arr" using arr by (rule live_readers_Some)
  from ok arr have len: "?n \<le> length arr" "0 \<le> num_readers s"
    "int (length arr) = alloc_readers s" "INIT_NUM_THREADS \<le> alloc_readers s"
    "alloc_readers s \<le> INT_MAX"
    by (auto simp: registry_ok_def)
  from find_reader_Some [OF f] have i: "i < ?n" using live len by simp
  then have pos: "0 < ?n" by simp
  have l: "nat (num_readers s - 1) = ?n - 1" by simp
  let ?z = "(arr ! (?n - 1))\<lparr>tid := 0, urcu_active_readers := NULL\<rparr>"
  let ?arr3 = "arr[i := arr ! (?n - 1), ?n - 1 := ?z]"
  let ?s' = "s\<lparr>registry := Some ?arr3, num_readers := num_readers s - 1\<rparr>"
  have "i < length arr" "?n - 1 < length arr" using i len(1) by simp_all
  then have "arr[i := arr ! (?n - 1)] ! (?n - 1) = arr ! (?n - 1)"
    by (simp add: nth_list_update)
  then have r: "rcu_remove_reader id' s = Inr ?s'"
    using arr f live \<open>?n - 1 < length arr\<close>
    by (simp add: rcu_remove_reader_def Let_def l)
  have "live_readers ?s' = take (?n - 1) ?arr3"
    by (simp add: live_readers_def l)
  also have "\<dots> = butlast ((take ?n arr)[i := last (take ?n arr)])"
    using pos len(1) i by (rule swap_with_last)
  finally have lv: "live_readers ?s' = butlast ((live_readers s)[i := last (live_readers s)])"
    by (simp add: live)
  have "registry_ok ?s'"
    using len pos by (simp add: registry_ok_def)
  with r lv show ?thesis by simp
qed

lemma rcu_remove_reader_absent:
  assumes "id' \<notin> tid ` set (live_readers s)"
  shows "rcu_remove_reader id' s = Inl Assertion_failed"
proof (cases "registry s")
  case None
  then show ?thesis by (simp add: rcu_remove_reader_def)
next
  case (Some arr)
  with assms have "find_reader id' (take (nat (num_readers s)) arr) 0 = None"
    by (simp add: find_reader_None live_readers_def)
  with Some show ?thesis by (simp add: rcu_remove_reader_def)
qed

lemma entry_collapse:
  "r\<lparr>tid := a, urcu_active_readers := b, need_mb := c\<rparr> =
   \<lparr>tid = a, urcu_active_readers = b, need_mb = c\<rparr>"
  by (cases r) simp

lemma store_entry:
  "(let n = k;
        arr1 = arr[n := (arr ! n)\<lparr>tid := a\<rparr>];
        arr2 = arr1[n := (arr1 ! n)\<lparr>urcu_active_readers := b\<rparr>];
        arr3 = arr2[n := (arr2 ! n)\<lparr>need_mb := c\<rparr>]
    in f arr3) =
   f (if k < length arr
      then arr[k := \<lparr>tid = a, urcu_active_readers = b, need_mb = c\<rparr>] else arr)"
proof (cases "k < length arr")
  case True
  then show ?thesis by (cases "arr ! k") (simp add: Let_def)
next
  case False
  then show ?thesis by (simp add: Let_def list_update_beyond)
qed

lemma rcu_add_reader_alt:
  "rcu_add_reader fill self id' s =
     (let (alloc, num, arr) =
            (case registry s of
               None \<Rightarrow> (INIT_NUM_THREADS, 0, malloc_registry fill (nat INIT_NUM_THREADS))
             | Some a \<Rightarrow> (alloc_readers s, num_readers s, a))
      in
      if INT_MAX < num + 1 then Inl Int_overflow
      else
        case (if alloc < num + 1
              then (if alloc < 0 \<or> INT_MAX < alloc * 2 then Inl Int_overflow
                    else Inr (alloc * 2,
                           memcpy_registry (malloc_registry fill (nat (alloc * 2))) arr
                             (nat alloc)))
              else Inr (alloc, arr)) of
          Inl e \<Rightarrow> Inl e
        | Inr (alloc', arr') \<Rightarrow>
            Inr (s\<lparr>registry := Some (if nat num < length arr'
                    then arr'[nat num := \<lparr>tid = id',
                      urcu_active_readers = tls_urcu_active_readers self,
                      need_mb = tls_need_mb self\<rparr>] else arr'),
                  alloc_readers := alloc', num_readers := num + 1\<rparr>))"
  by (simp only: rcu_add_reader_def store_entry)

lemma length_malloc_registry [simp]: "length (malloc_registry fill n) = n"
  by (simp add: malloc_registry_def)

lemma malloc_registry_empty [simp]: "malloc_registry fill n = [] \<longleftrightarrow> n = 0"
  by (simp add: malloc_registry_def)

lemma memcpy_registry_all:
  "length src = n \<Longrightarrow> memcpy_registry dst src n = src @ drop n dst"
  by (simp add: memcpy_registry_def)

lemma take_Suc_update:
  "n < length arr \<Longrightarrow> take (Suc n) (arr[n := e]) = take n arr @ [e]"
  by (simp add: take_Suc_conv_app_nth)

lemma rcu_add_reader_ok:
  assumes ok: "registry_ok s" and r: "rcu_add_reader fill t id' s = Inr s'"
  shows "live_readers s' = live_readers s @
           [\<lparr>tid = id', urcu_active_readers = tls_urcu_active_readers t,
             need_mb = tls_need_mb t\<rparr>] \<and>
         registry_ok s' \<and> num_readers s' = num_readers s + 1 \<and>
         alloc_readers s' =
           (if registry s = None then INIT_NUM_THREADS
            else if alloc_readers s < num_readers s + 1 then alloc_readers s * 2
            else alloc_readers s) \<and>
         urcu_gp_ctr s' = urcu_gp_ctr s \<and> tls s' = tls s \<and> ptr_at s' = ptr_at s \<and>
         trace s' = trace s \<and> yields s' = yields s"
proof (cases "registry s")
  case None
  let ?arr = "malloc_registry fill 4"
  let ?e = "\<lparr>tid = id', urcu_active_readers = tls_urcu_active_readers t,
             need_mb = tls_need_mb t\<rparr>"
  from r None have s': "s' = s\<lparr>registry := Some (?arr[0 := ?e]),
      alloc_readers := 4, num_readers := 1\<rparr>"
    by (simp add: rcu_add_reader_alt INIT_NUM_THREADS_def INT_MAX_def)
  have "take (Suc 0) (?arr[0 := ?e]) = [?e]"
    using take_Suc_update [of 0 ?arr ?e] by simp
  then show ?thesis using None ok
    by (simp add: s' live_readers_def registry_ok_def INIT_NUM_THREADS_def INT_MAX_def)
next
  case (Some arr)
  from ok Some have inv: "int (length arr) = alloc_readers s" "0 \<le> num_readers s"
    "num_readers s \<le> alloc_readers s" "INIT_NUM_THREADS \<le> alloc_readers s"
    "alloc_readers s \<le> INT_MAX"
    by (simp_all add: registry_ok_def)
  let ?n = "nat (num_readers s)"
  let ?e = "\<lparr>tid = id', urcu_active_readers = tls_urcu_active_readers t,
             need_mb = tls_need_mb t\<rparr>"
  have live: "live_readers s = take ?n arr" using Some by (rule live_readers_Some)
  have sn: "nat (num_readers s + 1) = Suc ?n" using inv(2) by simp
  have pos: "0 < length arr"
    using inv(1,4) by (cases arr) (simp_all add: INIT_NUM_THREADS_def)
  show ?thesis
  proof (cases "alloc_readers s < num_readers s + 1")
    case True
    with inv have full: "num_readers s = alloc_readers s" "?n = length arr" by simp_all
    have na: "nat (alloc_readers s) = length arr" using inv(1) by simp
    let ?arr' = "arr @ drop (length arr) (malloc_registry fill (nat (alloc_readers s * 2)))"
    have m: "memcpy_registry (malloc_registry fill (nat (alloc_readers s * 2))) arr
               (nat (alloc_readers s)) = ?arr'"
      using na by (simp add: memcpy_registry_all)
    have len': "length ?arr' = 2 * length arr" using inv(1) by simp
    have n: "?n < length ?arr'" using pos by (simp only: len' full(2))
    from r Some True have nov: "\<not> INT_MAX < alloc_readers s * 2"
      by (auto simp: rcu_add_reader_alt split: if_splits)
    have g: "\<not> INT_MAX < num_readers s + 1" "\<not> alloc_readers s < 0"
      using inv nov by (simp_all add: INIT_NUM_THREADS_def)
    from r have "s' = s\<lparr>registry := Some (?arr'[?n := ?e]),
        alloc_readers := alloc_readers s * 2, num_readers := num_readers s + 1\<rparr>"
      unfolding rcu_add_reader_alt Some option.case prod.case Let_def m
      using True nov g n by (simp only: if_True if_False simp_thms sum.case prod.case, simp?)
    note s' = this
    have "take (Suc ?n) (?arr'[?n := ?e]) = take ?n ?arr' @ [?e]"
      using n by (rule take_Suc_update)
    also have "take ?n ?arr' = arr" by (simp add: full(2))
    finally have "live_readers s' = arr @ [?e]"
      by (simp add: s' live_readers_def sn)
    moreover have "live_readers s = arr" by (simp add: live full(2))
    moreover have "registry_ok s'"
      using inv nov len' by (simp add: s' registry_ok_def INIT_NUM_THREADS_def)
    ultimately show ?thesis using Some True by (simp add: s')
  next
    case False
    with inv have n: "?n < length arr" by simp
    have g: "\<not> INT_MAX < num_readers s + 1"
      using inv False by simp
    from r have s': "s' = s\<lparr>registry := Some (arr[?n := ?e]),
        alloc_readers := alloc_readers s, num_readers := num_readers s + 1\<rparr>"
      unfolding rcu_add_reader_alt Some option.case prod.case Let_def
      using False g n by (simp only: if_True if_False simp_thms sum.case prod.case, simp?)
    have "take (Suc ?n) (arr[?n := ?e]) = take ?n arr @ [?e]"
      using n by (rule take_Suc_update)
    then have "live_readers s' = live_readers s @ [?e]"
      using Some by (simp add: s' live_readers_def sn)
    moreover have "registry_ok s'"
      using inv False by (simp add: s' registry_ok_def)
    ultimately show ?thesis using Some False by (simp add: s')
  qed
qed

lemma registry_ok_start: "registry_ok (urcu_start g t p)"
  by (simp add: registry_ok_def urcu_start_def)

lemma apply_op_ok:
  assumes "registry_ok s" "apply_op fill x s = Inr s'"
  shows "registry_ok s' \<and> alloc_readers s \<le> alloc_readers s'"
proof (cases x)
  case (Register t)
  with assms rcu_add_reader_ok [of s fill t "pthread_self t" s']
  show ?thesis
    by (auto simp: registry_ok_def INIT_NUM_THREADS_def split: option.splits if_splits)
next
  case (Unregister t)
  show ?thesis
  proof (cases "pthread_self t \<in> tid ` set (live_readers s)")
    case True
    then obtain i where "find_reader (pthread_self t) (live_readers s) 0 = Some i"
      using find_reader_None [of "pthread_self t" "live_readers s" 0] by auto
    from rcu_remove_reader_found [OF assms(1) this] assms(2) Unregister
    show ?thesis by auto
  next
    case False
    with rcu_remove_reader_absent assms(2) Unregister show ?thesis by simp
  qed
qed

lemma run_ops_ok:
  "registry_ok s \<Longrightarrow> run_ops fill xs s = Inr s' \<Longrightarrow>
   registry_ok s' \<and> alloc_readers s \<le> alloc_readers s'"
proof (induction xs arbitrary: s)
  case Nil
  then show ?case by simp
next
  case (Cons x xs)
  from Cons.prems(2) obtain s1 where s1: "apply_op fill x s = Inr s1"
    "run_ops fill xs s1 = Inr s'"
    by (auto split: sum.splits)
  from apply_op_ok [OF Cons.prems(1) s1(1)] Cons.IH [OF _ s1(2)]
  show ?case by auto
qed

text \<open>
  Overwriting entry \<open>i\<close> with the last entry and dropping the last slot removes
  exactly entry \<open>i\<close>.
\<close>

lemma swap_remove_shape:
  assumes "i < length xs"
  obtains as x where "xs = as @ [x]" "i = length as" "butlast (xs[i := last xs]) = as"
  | as x bs l where "xs = as @ x # bs @ [l]" "i = length as"
      "butlast (xs[i := last xs]) = as @ l # bs"
proof -
  from assms have "xs = take i xs @ xs ! i # drop (Suc i) xs"
    by (rule id_take_nth_drop)
  moreover have "length (take i xs) = i" using assms by simp
  ultimately obtain as x rest where xs: "xs = as @ x # rest" and li: "length as = i"
    by blast
  show ?thesis
  proof (cases rest rule: rev_cases)
    case Nil
    with xs li have "xs = as @ [x]" "i = length as" by simp_all
    moreover from this have "butlast (xs[i := last xs]) = as" by simp
    ultimately show ?thesis by (rule that(1))
  next
    case (snoc bs l)
    with xs li have "xs = as @ x # bs @ [l]" "i = length as" by simp_all
    moreover from this have "butlast (xs[i := last xs]) = as @ l # bs"
      by (simp add: butlast_append)
    ultimately show ?thesis by (rule that(2))
  qed
qed

lemma swap_remove_others:
  assumes "i < length xs" "e \<in> set xs" "f e \<noteq> f (xs ! i)"
  shows "e \<in> set (butlast (xs[i := last xs]))"
  using assms(1)
proof (rule swap_remove_shape)
  fix as x assume "xs = as @ [x]" "i = length as" "butlast (xs[i := last xs]) = as"
  with assms(2,3) show ?thesis by auto
next
  fix as x bs l
  assume "xs = as @ x # bs @ [l]" "i = length as" "butlast (xs[i := last xs]) = as @ l # bs"
  with assms(2,3) show ?thesis by auto
qed

lemma swap_remove_distinct:
  assumes "i < length xs" "distinct (map f xs)"
  shows "distinct (map f (butlast (xs[i := last xs]))) \<and>
         f ` set (butlast (xs[i := last xs])) = f ` set xs - {f (xs ! i)}"
  using assms(1)
proof (rule swap_remove_shape)
  fix as x assume "xs = as @ [x]" "i = length as" "butlast (xs[i := last xs]) = as"
  with assms(2) show ?thesis by auto
next
  fix as x bs l
  assume "xs = as @ x # bs @ [l]" "i = length as" "butlast (xs[i := last xs]) = as @ l # bs"
  with assms(2) show ?thesis by (auto simp: image_iff)
qed

text \<open>
  C7. \<^verbatim>\<open>rcu_remove_reader(id)\<close>: when no entry in use has the handle \<open>id\<close> the assertion
  fails. Otherwise the first such entry is overwritten with the last entry in use and
  the last slot is given up: \<^verbatim>\<open>num_readers\<close> goes down by one, the capacity stays, and
  every entry with another handle is still there.
\<close>

theorem rcu_remove_reader_spec:
  assumes "registry_ok s"
  shows "(id' \<notin> tid ` set (live_readers s) \<longrightarrow>
            rcu_remove_reader id' s = Inl Assertion_failed) \<and>
         (id' \<in> tid ` set (live_readers s) \<longrightarrow>
            (\<exists>s' i. rcu_remove_reader id' s = Inr s' \<and>
               i < length (live_readers s) \<and> tid (live_readers s ! i) = id' \<and>
               (\<forall>k < i. tid (live_readers s ! k) \<noteq> id') \<and>
               live_readers s' = butlast ((live_readers s)[i := last (live_readers s)]) \<and>
               num_readers s' = num_readers s - 1 \<and>
               int (length (live_readers s')) = int (length (live_readers s)) - 1 \<and>
               alloc_readers s' = alloc_readers s \<and>
               (\<forall>e \<in> set (live_readers s). tid e \<noteq> id' \<longrightarrow> e \<in> set (live_readers s'))))"
proof (intro conjI impI)
  assume "id' \<notin> tid ` set (live_readers s)"
  then show "rcu_remove_reader id' s = Inl Assertion_failed"
    by (rule rcu_remove_reader_absent)
next
  assume "id' \<in> tid ` set (live_readers s)"
  then obtain i where f: "find_reader id' (live_readers s) 0 = Some i"
    using find_reader_None [of id' "live_readers s" 0] by auto
  from find_reader_Some [OF f] have i: "i < length (live_readers s)"
    "tid (live_readers s ! i) = id'" "\<forall>k < i. tid (live_readers s ! k) \<noteq> id'"
    by simp_all
  from rcu_remove_reader_found [OF assms f] obtain s' where
    s': "rcu_remove_reader id' s = Inr s'"
      "live_readers s' = butlast ((live_readers s)[i := last (live_readers s)])"
      "num_readers s' = num_readers s - 1" "alloc_readers s' = alloc_readers s"
      "registry_ok s'"
    by blast
  have "int (length (live_readers s')) = int (length (live_readers s)) - 1"
    using live_readers_length [OF assms] live_readers_length [OF s'(5)] s'(3) by simp
  moreover have "\<forall>e \<in> set (live_readers s). tid e \<noteq> id' \<longrightarrow> e \<in> set (live_readers s')"
    using swap_remove_others [OF i(1), of _ tid] i(2) s'(2) by auto
  ultimately show "\<exists>s' i. rcu_remove_reader id' s = Inr s' \<and>
               i < length (live_readers s) \<and> tid (live_readers s ! i) = id' \<and>
               (\<forall>k < i. tid (live_readers s ! k) \<noteq> id') \<and>
               live_readers s' = butlast ((live_readers s)[i := last (live_readers s)]) \<and>
               num_readers s' = num_readers s - 1 \<and>
               int (length (live_readers s')) = int (length (live_readers s)) - 1 \<and>
               alloc_readers s' = alloc_readers s \<and>
               (\<forall>e \<in> set (live_readers s). tid e \<noteq> id' \<longrightarrow> e \<in> set (live_readers s'))"
    using s' i by blast
qed

theorem rcu_remove_reader_spec_witness:
  "registry_ok ((urcu_start 1 \<lparr>long_at = (\<lambda>_. 0), char_at = (\<lambda>_. 0)\<rparr> (\<lambda>_. 0))
      \<lparr>registry := Some [\<lparr>tid = 1, urcu_active_readers = 16, need_mb = 24\<rparr>,
                          \<lparr>tid = 2, urcu_active_readers = 32, need_mb = 40\<rparr>,
                          \<lparr>tid = 3, urcu_active_readers = 48, need_mb = 56\<rparr>,
                          \<lparr>tid = 0, urcu_active_readers = 0, need_mb = 0\<rparr>],
        num_readers := 3, alloc_readers := 4\<rparr>) \<and>
   rcu_remove_reader 9 ((urcu_start 1 \<lparr>long_at = (\<lambda>_. 0), char_at = (\<lambda>_. 0)\<rparr> (\<lambda>_. 0))
      \<lparr>registry := Some [\<lparr>tid = 1, urcu_active_readers = 16, need_mb = 24\<rparr>,
                          \<lparr>tid = 2, urcu_active_readers = 32, need_mb = 40\<rparr>,
                          \<lparr>tid = 3, urcu_active_readers = 48, need_mb = 56\<rparr>,
                          \<lparr>tid = 0, urcu_active_readers = 0, need_mb = 0\<rparr>],
        num_readers := 3, alloc_readers := 4\<rparr>) = Inl Assertion_failed \<and>
   (\<exists>s'. rcu_remove_reader 1 ((urcu_start 1 \<lparr>long_at = (\<lambda>_. 0), char_at = (\<lambda>_. 0)\<rparr> (\<lambda>_. 0))
      \<lparr>registry := Some [\<lparr>tid = 1, urcu_active_readers = 16, need_mb = 24\<rparr>,
                          \<lparr>tid = 2, urcu_active_readers = 32, need_mb = 40\<rparr>,
                          \<lparr>tid = 3, urcu_active_readers = 48, need_mb = 56\<rparr>,
                          \<lparr>tid = 0, urcu_active_readers = 0, need_mb = 0\<rparr>],
        num_readers := 3, alloc_readers := 4\<rparr>) = Inr s' \<and>
      num_readers s' = 2 \<and> alloc_readers s' = 4 \<and>
      \<lparr>tid = 2, urcu_active_readers = 32, need_mb = 40\<rparr> \<in> set (live_readers s') \<and>
      \<lparr>tid = 3, urcu_active_readers = 48, need_mb = 56\<rparr> \<in> set (live_readers s'))"
proof -
  let ?S = "(urcu_start 1 \<lparr>long_at = (\<lambda>_. 0), char_at = (\<lambda>_. 0)\<rparr> (\<lambda>_. 0))
      \<lparr>registry := Some [\<lparr>tid = 1, urcu_active_readers = 16, need_mb = 24\<rparr>,
                          \<lparr>tid = 2, urcu_active_readers = 32, need_mb = 40\<rparr>,
                          \<lparr>tid = 3, urcu_active_readers = 48, need_mb = 56\<rparr>,
                          \<lparr>tid = 0, urcu_active_readers = 0, need_mb = 0\<rparr>],
        num_readers := 3, alloc_readers := 4\<rparr>"
  have h: "registry_ok ?S"
    by (simp add: registry_ok_def urcu_start_def INIT_NUM_THREADS_def INT_MAX_def)
  have l: "live_readers ?S = [\<lparr>tid = 1, urcu_active_readers = 16, need_mb = 24\<rparr>,
                          \<lparr>tid = 2, urcu_active_readers = 32, need_mb = 40\<rparr>,
                          \<lparr>tid = 3, urcu_active_readers = 48, need_mb = 56\<rparr>]"
    by (simp add: live_readers_def urcu_start_def)
  have a: "9 \<notin> tid ` set (live_readers ?S)" "1 \<in> tid ` set (live_readers ?S)"
    by (simp_all add: l)
  from rcu_remove_reader_spec [OF h, of 9] a(1)
  have 1: "rcu_remove_reader 9 ?S = Inl Assertion_failed" by blast
  from rcu_remove_reader_spec [OF h, of 1] a(2) obtain s' where
    s': "rcu_remove_reader 1 ?S = Inr s'" "num_readers s' = num_readers ?S - 1"
      "alloc_readers s' = alloc_readers ?S"
      "\<forall>e \<in> set (live_readers ?S). tid e \<noteq> 1 \<longrightarrow> e \<in> set (live_readers s')"
    by blast
  from s'(4) have "\<lparr>tid = 2, urcu_active_readers = 32, need_mb = 40\<rparr> \<in> set (live_readers s')"
    "\<lparr>tid = 3, urcu_active_readers = 48, need_mb = 56\<rparr> \<in> set (live_readers s')"
    by (simp_all add: l)
  with h 1 s' show ?thesis by (simp add: urcu_start_def)
qed

text \<open>
  C8. A registration on the \<^verbatim>\<open>NULL\<close> registry sets the capacity to 4. On an allocated
  registry the capacity doubles exactly when \<^verbatim>\<open>num_readers + 1\<close> exceeds it, and
  otherwise stays. The entries in use before the registration are the same afterwards,
  in the same slots, followed by the new entry. Over any sequence of registrations and
  deregistrations that the process survives the capacity does not go down.
\<close>

theorem registry_capacity:
  assumes "registry_ok s"
  shows "(\<forall>s'. rcu_add_reader fill t id' s = Inr s' \<longrightarrow>
            alloc_readers s' =
              (if registry s = None then 4
               else if alloc_readers s < num_readers s + 1 then 2 * alloc_readers s
               else alloc_readers s) \<and>
            (registry s \<noteq> None \<longrightarrow>
               (alloc_readers s' = 2 * alloc_readers s \<longleftrightarrow>
                  alloc_readers s < num_readers s + 1)) \<and>
            alloc_readers s \<le> alloc_readers s' \<and>
            take (length (live_readers s)) (live_readers s') = live_readers s \<and>
            length (live_readers s') = Suc (length (live_readers s))) \<and>
         (\<forall>xs s'. run_ops fill xs s = Inr s' \<longrightarrow> alloc_readers s \<le> alloc_readers s')"
proof (intro conjI allI impI)
  fix s' assume r: "rcu_add_reader fill t id' s = Inr s'"
  note a = rcu_add_reader_ok [OF assms r]
  from a show "alloc_readers s' =
              (if registry s = None then 4
               else if alloc_readers s < num_readers s + 1 then 2 * alloc_readers s
               else alloc_readers s)"
    by (simp add: INIT_NUM_THREADS_def)
  from a show "take (length (live_readers s)) (live_readers s') = live_readers s"
    "length (live_readers s') = Suc (length (live_readers s))"
    by simp_all
  from a assms show "alloc_readers s \<le> alloc_readers s'"
    by (auto simp: registry_ok_def INIT_NUM_THREADS_def split: option.splits)
  assume "registry s \<noteq> None"
  with a assms show "alloc_readers s' = 2 * alloc_readers s \<longleftrightarrow>
      alloc_readers s < num_readers s + 1"
    by (auto simp: registry_ok_def INIT_NUM_THREADS_def split: option.splits)
next
  fix xs s' assume "run_ops fill xs s = Inr s'"
  with run_ops_ok [OF assms this] show "alloc_readers s \<le> alloc_readers s'" by simp
qed

theorem registry_capacity_witness:
  "registry_ok (urcu_start 1 \<lparr>long_at = (\<lambda>_. 0), char_at = (\<lambda>_. 0)\<rparr> (\<lambda>_. 0)) \<and>
   (\<exists>s'. rcu_add_reader (\<lambda>_. \<lparr>tid = 0, urcu_active_readers = 0, need_mb = 0\<rparr>)
            \<lparr>pthread_self = 1, tls_urcu_active_readers = 16, tls_need_mb = 24\<rparr> 1
            (urcu_start 1 \<lparr>long_at = (\<lambda>_. 0), char_at = (\<lambda>_. 0)\<rparr> (\<lambda>_. 0)) = Inr s' \<and>
          alloc_readers s' = 4) \<and>
   (\<exists>s'. run_ops (\<lambda>_. \<lparr>tid = 0, urcu_active_readers = 0, need_mb = 0\<rparr>)
            [Register \<lparr>pthread_self = 1, tls_urcu_active_readers = 16, tls_need_mb = 24\<rparr>,
             Register \<lparr>pthread_self = 2, tls_urcu_active_readers = 32, tls_need_mb = 40\<rparr>,
             Register \<lparr>pthread_self = 3, tls_urcu_active_readers = 48, tls_need_mb = 56\<rparr>,
             Register \<lparr>pthread_self = 4, tls_urcu_active_readers = 64, tls_need_mb = 72\<rparr>,
             Register \<lparr>pthread_self = 5, tls_urcu_active_readers = 80, tls_need_mb = 88\<rparr>,
             Unregister \<lparr>pthread_self = 2, tls_urcu_active_readers = 32, tls_need_mb = 40\<rparr>]
            (urcu_start 1 \<lparr>long_at = (\<lambda>_. 0), char_at = (\<lambda>_. 0)\<rparr> (\<lambda>_. 0)) = Inr s' \<and>
          alloc_readers s' = 8 \<and>
          alloc_readers (urcu_start 1 \<lparr>long_at = (\<lambda>_. 0), char_at = (\<lambda>_. 0)\<rparr> (\<lambda>_. 0))
            \<le> alloc_readers s')"
proof -
  let ?S = "urcu_start 1 \<lparr>long_at = (\<lambda>_. 0), char_at = (\<lambda>_. 0)\<rparr> (\<lambda>_. 0)"
  let ?F = "\<lambda>_::nat. \<lparr>tid = 0, urcu_active_readers = 0, need_mb = 0\<rparr>"
  let ?T = "\<lparr>pthread_self = 1, tls_urcu_active_readers = 16, tls_need_mb = 24\<rparr>"
  let ?xs = "[Register \<lparr>pthread_self = 1, tls_urcu_active_readers = 16, tls_need_mb = 24\<rparr>,
             Register \<lparr>pthread_self = 2, tls_urcu_active_readers = 32, tls_need_mb = 40\<rparr>,
             Register \<lparr>pthread_self = 3, tls_urcu_active_readers = 48, tls_need_mb = 56\<rparr>,
             Register \<lparr>pthread_self = 4, tls_urcu_active_readers = 64, tls_need_mb = 72\<rparr>,
             Register \<lparr>pthread_self = 5, tls_urcu_active_readers = 80, tls_need_mb = 88\<rparr>,
             Unregister \<lparr>pthread_self = 2, tls_urcu_active_readers = 32, tls_need_mb = 40\<rparr>]"
  have h: "registry_ok ?S" by (rule registry_ok_start)
  have "map_sum (\<lambda>e. e) alloc_readers (rcu_add_reader ?F ?T 1 ?S) = Inr 4"
    by code_simp
  then obtain s1 where s1: "rcu_add_reader ?F ?T 1 ?S = Inr s1" "alloc_readers s1 = 4"
    by (cases "rcu_add_reader ?F ?T 1 ?S") auto
  have "map_sum (\<lambda>e. e) alloc_readers (run_ops ?F ?xs ?S) = Inr 8"
    by code_simp
  then obtain s2 where s2: "run_ops ?F ?xs ?S = Inr s2" "alloc_readers s2 = 8"
    by (cases "run_ops ?F ?xs ?S") auto
  from registry_capacity [OF h, of ?F ?T 1] s2(1)
  have "alloc_readers ?S \<le> alloc_readers s2" by blast
  with h s1 s2 show ?thesis by blast
qed

text \<open>
  C9. Two registrations by one thread leave two entries with its handle: the code
  does not look for an entry of the caller before it appends one.
\<close>

theorem registry_duplicate_counterexample:
  "\<exists>s'. run_ops (\<lambda>_. \<lparr>tid = 0, urcu_active_readers = 0, need_mb = 0\<rparr>)
           [Register \<lparr>pthread_self = 7, tls_urcu_active_readers = 16, tls_need_mb = 24\<rparr>,
            Register \<lparr>pthread_self = 7, tls_urcu_active_readers = 16, tls_need_mb = 24\<rparr>]
           (urcu_start 1 \<lparr>long_at = (\<lambda>_. 0), char_at = (\<lambda>_. 0)\<rparr> (\<lambda>_. 0)) = Inr s' \<and>
        map tid (live_readers s') = [7, 7] \<and> \<not> distinct (map tid (live_readers s'))"
proof -
  let ?r = "run_ops (\<lambda>_. \<lparr>tid = 0, urcu_active_readers = 0, need_mb = 0\<rparr>)
           [Register \<lparr>pthread_self = 7, tls_urcu_active_readers = 16, tls_need_mb = 24\<rparr>,
            Register \<lparr>pthread_self = 7, tls_urcu_active_readers = 16, tls_need_mb = 24\<rparr>]
           (urcu_start 1 \<lparr>long_at = (\<lambda>_. 0), char_at = (\<lambda>_. 0)\<rparr> (\<lambda>_. 0))"
  have "map_sum (\<lambda>e. e) (\<lambda>s. map tid (live_readers s)) ?r = Inr [7, 7]"
    by code_simp
  then obtain s' where "?r = Inr s'" "map tid (live_readers s') = [7, 7]"
    by (cases ?r) auto
  then show ?thesis by auto
qed

text \<open>
  C9, amended. Over a sequence of registrations and deregistrations in which no thread
  registers while it has an entry, and which the process survives (a deregistration by
  a thread without an entry fails the assertion), the handles of the entries in use
  are distinct, and they are the handles of the threads that registered and have not
  deregistered since.
\<close>

theorem registry_unique:
  assumes "registry_ok s" "distinct (map tid (live_readers s))"
    and "registers_once xs (tid ` set (live_readers s))"
    and "run_ops fill xs s = Inr s'"
  shows "distinct (map tid (live_readers s')) \<and>
         tid ` set (live_readers s') = registered_after xs (tid ` set (live_readers s)) \<and>
         registry_ok s'"
  using assms
proof (induction xs arbitrary: s)
  case Nil
  then show ?case by simp
next
  case (Cons x xs)
  from Cons.prems(4) obtain s1 where s1: "apply_op fill x s = Inr s1"
    "run_ops fill xs s1 = Inr s'"
    by (auto split: sum.splits)
  show ?case
  proof (cases x)
    case (Register t)
    with s1 have r: "rcu_add_reader fill t (pthread_self t) s = Inr s1" by simp
    note a = rcu_add_reader_ok [OF Cons.prems(1) r]
    from Cons.prems(3) Register have new: "pthread_self t \<notin> tid ` set (live_readers s)"
      and once: "registers_once xs (insert (pthread_self t) (tid ` set (live_readers s)))"
      by simp_all
    from a have t1: "tid ` set (live_readers s1) = insert (pthread_self t) (tid ` set (live_readers s))"
      by simp
    from a new Cons.prems(2) have d1: "distinct (map tid (live_readers s1))" by simp
    from a have ok1: "registry_ok s1" by simp
    from Cons.IH [OF ok1 d1 _ s1(2)] once t1 Register show ?thesis by simp
  next
    case (Unregister t)
    with s1 have r: "rcu_remove_reader (pthread_self t) s = Inr s1" by simp
    with rcu_remove_reader_absent [of "pthread_self t" s]
    have "pthread_self t \<in> tid ` set (live_readers s)" by auto
    then obtain i where f: "find_reader (pthread_self t) (live_readers s) 0 = Some i"
      using find_reader_None [of "pthread_self t" "live_readers s" 0] by auto
    from find_reader_Some [OF f] have i: "i < length (live_readers s)"
      "tid (live_readers s ! i) = pthread_self t" by simp_all
    from rcu_remove_reader_found [OF Cons.prems(1) f] r
    have l1: "live_readers s1 = butlast ((live_readers s)[i := last (live_readers s)])"
      and ok1: "registry_ok s1" by simp_all
    from swap_remove_distinct [OF i(1) Cons.prems(2)] l1 i(2)
    have d1: "distinct (map tid (live_readers s1))"
      and t1: "tid ` set (live_readers s1) = tid ` set (live_readers s) - {pthread_self t}"
      by simp_all
    from Cons.prems(3) Unregister
    have once: "registers_once xs (tid ` set (live_readers s) - {pthread_self t})" by simp
    from Cons.IH [OF ok1 d1 _ s1(2)] once t1 Unregister show ?thesis by simp
  qed
qed

theorem registry_unique_witness:
  "registry_ok (urcu_start 1 \<lparr>long_at = (\<lambda>_. 0), char_at = (\<lambda>_. 0)\<rparr> (\<lambda>_. 0)) \<and>
   registers_once
     [Register \<lparr>pthread_self = 1, tls_urcu_active_readers = 16, tls_need_mb = 24\<rparr>,
      Register \<lparr>pthread_self = 2, tls_urcu_active_readers = 32, tls_need_mb = 40\<rparr>,
      Register \<lparr>pthread_self = 3, tls_urcu_active_readers = 48, tls_need_mb = 56\<rparr>,
      Unregister \<lparr>pthread_self = 1, tls_urcu_active_readers = 16, tls_need_mb = 24\<rparr>,
      Register \<lparr>pthread_self = 1, tls_urcu_active_readers = 16, tls_need_mb = 24\<rparr>,
      Unregister \<lparr>pthread_self = 2, tls_urcu_active_readers = 32, tls_need_mb = 40\<rparr>] {} \<and>
   (\<exists>s'. run_ops (\<lambda>_. \<lparr>tid = 0, urcu_active_readers = 0, need_mb = 0\<rparr>)
     [Register \<lparr>pthread_self = 1, tls_urcu_active_readers = 16, tls_need_mb = 24\<rparr>,
      Register \<lparr>pthread_self = 2, tls_urcu_active_readers = 32, tls_need_mb = 40\<rparr>,
      Register \<lparr>pthread_self = 3, tls_urcu_active_readers = 48, tls_need_mb = 56\<rparr>,
      Unregister \<lparr>pthread_self = 1, tls_urcu_active_readers = 16, tls_need_mb = 24\<rparr>,
      Register \<lparr>pthread_self = 1, tls_urcu_active_readers = 16, tls_need_mb = 24\<rparr>,
      Unregister \<lparr>pthread_self = 2, tls_urcu_active_readers = 32, tls_need_mb = 40\<rparr>]
     (urcu_start 1 \<lparr>long_at = (\<lambda>_. 0), char_at = (\<lambda>_. 0)\<rparr> (\<lambda>_. 0)) = Inr s' \<and>
     distinct (map tid (live_readers s')) \<and> tid ` set (live_readers s') = {1, 3})"
proof -
  let ?S = "urcu_start 1 \<lparr>long_at = (\<lambda>_. 0), char_at = (\<lambda>_. 0)\<rparr> (\<lambda>_. 0)"
  let ?F = "\<lambda>_::nat. \<lparr>tid = 0, urcu_active_readers = 0, need_mb = 0\<rparr>"
  let ?xs = "[Register \<lparr>pthread_self = 1, tls_urcu_active_readers = 16, tls_need_mb = 24\<rparr>,
      Register \<lparr>pthread_self = 2, tls_urcu_active_readers = 32, tls_need_mb = 40\<rparr>,
      Register \<lparr>pthread_self = 3, tls_urcu_active_readers = 48, tls_need_mb = 56\<rparr>,
      Unregister \<lparr>pthread_self = 1, tls_urcu_active_readers = 16, tls_need_mb = 24\<rparr>,
      Register \<lparr>pthread_self = 1, tls_urcu_active_readers = 16, tls_need_mb = 24\<rparr>,
      Unregister \<lparr>pthread_self = 2, tls_urcu_active_readers = 32, tls_need_mb = 40\<rparr>]"
  have h: "registry_ok ?S" by (rule registry_ok_start)
  have l: "live_readers ?S = []" by (simp add: live_readers_def urcu_start_def)
  have o: "registers_once ?xs {}" by simp
  have ra: "registered_after ?xs {} = {1, 3}" by auto
  have "map_sum (\<lambda>e. e) num_readers (run_ops ?F ?xs ?S) = Inr 2"
    by code_simp
  then obtain s' where s': "run_ops ?F ?xs ?S = Inr s'"
    by (cases "run_ops ?F ?xs ?S") auto
  from registry_unique [OF h _ _ s'] o ra
  have "distinct (map tid (live_readers s')) \<and> tid ` set (live_readers s') = {1, 3}"
    by (simp add: l)
  with h o s' show ?thesis by blast
qed

section \<open>Properties of the writer\<close>

lemma gp_stores_append: "gp_stores (xs @ ys) = gp_stores xs @ gp_stores ys"
  by (induction xs rule: gp_stores.induct) simp_all

lemma quiet_refl [simp]: "quiet s s"
  by (simp add: quiet_def)

lemma quiet_trans: "quiet s s1 \<Longrightarrow> quiet s1 s2 \<Longrightarrow> quiet s s2"
  by (auto simp: quiet_def gp_stores_append)

lemma quiet_yield [simp]: "quiet s (yield E s)"
  by (simp add: quiet_def yield_def)

lemma quiet_smp_mb [simp]: "quiet s (smp_mb s)"
  by (simp add: quiet_def smp_mb_def log_event_def)

lemma quiet_smp_mc [simp]: "quiet s (smp_mc s)"
  by (simp add: quiet_def smp_mc_def log_event_def)

lemma quiet_pthread_kill [simp]: "quiet s (pthread_kill E t s)"
  by (simp add: quiet_def pthread_kill_def yield_def log_event_def)

lemma quiet_poll_rcu [simp]: "quiet s (poll_rcu E ms s)"
  by (simp add: quiet_def poll_rcu_def yield_def log_event_def)

lemma quiet_cpu_relax_rcu [simp]: "quiet s (cpu_relax_rcu E s)"
  by (simp add: quiet_def cpu_relax_rcu_def yield_def log_event_def)

lemma quiet_store_need_mb [simp]: "quiet s (store_need_mb a v s)"
  by (simp add: quiet_def store_need_mb_def)

lemma quiet_request_mb [simp]: "quiet s (request_mb E index s)"
  unfolding request_mb_def
  by (rule quiet_trans [OF quiet_store_need_mb quiet_trans [OF quiet_smp_mc quiet_pthread_kill]])

lemma quiet_fold_request_mb: "quiet s (fold (request_mb E) xs s)"
proof (induction xs arbitrary: s)
  case Nil
  show ?case by simp
next
  case (Cons x xs)
  from quiet_trans [OF quiet_request_mb Cons.IH] show ?case by simp
qed

lemma wait_need_mb_quiet:
  assumes "wait_need_mb E index s = Some s'"
  shows "quiet s s'"
proof (rule wait_need_mb.raw_induct [where P = "\<lambda>E index s s'. quiet s s'", OF _ assms])
  fix wait E index s s'
  assume ih: "\<And>E index s y. wait E index s = Some y \<Longrightarrow> quiet s y"
    and body: "(if char_at (tls s) (need_mb index) \<noteq> 0
      then wait E index (poll_rcu E 1 (pthread_kill E (tid index) s))
      else Some s) = Some s'"
  show "quiet s s'"
  proof (cases "char_at (tls s) (need_mb index) \<noteq> 0")
    case True
    with body have "wait E index (poll_rcu E 1 (pthread_kill E (tid index) s)) = Some s'"
      by simp
    then have "quiet (poll_rcu E 1 (pthread_kill E (tid index) s)) s'" by (rule ih)
    with quiet_trans [OF quiet_pthread_kill quiet_poll_rcu] show ?thesis
      by (rule quiet_trans)
  next
    case False
    with body show ?thesis by simp
  qed
qed

lemma wait_reader_quiet:
  assumes "wait_reader E index s = Some s'"
  shows "quiet s s'"
proof (rule wait_reader.raw_induct [where P = "\<lambda>E index s s'. quiet s s'", OF _ assms])
  fix wait E index s s'
  assume ih: "\<And>E index s y. wait E index s = Some y \<Longrightarrow> quiet s y"
    and body: "(if rcu_old_gp_ongoing E (urcu_active_readers index) s
      then wait E index (cpu_relax_rcu E s)
      else Some s) = Some s'"
  show "quiet s s'"
  proof (cases "rcu_old_gp_ongoing E (urcu_active_readers index) s")
    case True
    with body have "wait E index (cpu_relax_rcu E s) = Some s'" by simp
    then have "quiet (cpu_relax_rcu E s) s'" by (rule ih)
    with quiet_cpu_relax_rcu show ?thesis by (rule quiet_trans)
  next
    case False
    with body show ?thesis by simp
  qed
qed

lemma for_each_quiet:
  assumes "\<And>x s s'. body x s = Some s' \<Longrightarrow> quiet s s'"
    and "for_each body xs s = Some s'"
  shows "quiet s s'"
  using assms(2)
proof (induction xs arbitrary: s)
  case Nil
  then show ?case by simp
next
  case (Cons x xs)
  then obtain s1 where "body x s = Some s1" "for_each body xs s1 = Some s'"
    by (auto simp: bind_eq_Some_conv)
  with assms(1) Cons.IH show ?case by (blast intro: quiet_trans)
qed

lemma force_mb_all_threads_quiet:
  assumes "force_mb_all_threads E s = Some s'"
  shows "quiet s s'"
proof (cases "registry s = None")
  case True
  with assms show ?thesis by (simp add: force_mb_all_threads_def)
next
  case False
  let ?s1 = "fold (request_mb E) (live_readers s) s"
  from assms False obtain s2 where
    s2: "for_each (wait_need_mb E) (live_readers ?s1) ?s1 = Some s2" "s' = smp_mb s2"
    by (auto simp: force_mb_all_threads_def Let_def bind_eq_Some_conv)
  have "quiet ?s1 s2" using wait_need_mb_quiet s2(1) by (rule for_each_quiet)
  with quiet_fold_request_mb have "quiet s s2" by (rule quiet_trans)
  with s2(2) show ?thesis by (blast intro: quiet_trans quiet_smp_mb)
qed

lemma wait_for_quiescent_state_quiet:
  assumes "wait_for_quiescent_state E s = Some s'"
  shows "quiet s s'"
proof (cases "registry s = None")
  case True
  with assms show ?thesis by (simp add: wait_for_quiescent_state_def)
next
  case False
  with assms have "for_each (wait_reader E) (live_readers s) s = Some s'"
    by (simp add: wait_for_quiescent_state_def)
  with wait_reader_quiet show ?thesis by (rule for_each_quiet)
qed

lemma xor_twice: "(g XOR b) XOR b = (g :: long)"
  by (simp add: xor.assoc)

lemma switch_next_urcu_qparity_simps [simp]:
  "urcu_gp_ctr (switch_next_urcu_qparity E s) = urcu_gp_ctr s XOR RCU_GP_CTR_BIT E"
  "trace (switch_next_urcu_qparity E s) =
     trace s @ [Store_gp_ctr (urcu_gp_ctr s XOR RCU_GP_CTR_BIT E)]"
  "registry (switch_next_urcu_qparity E s) = registry s"
  "num_readers (switch_next_urcu_qparity E s) = num_readers s"
  "alloc_readers (switch_next_urcu_qparity E s) = alloc_readers s"
  "ptr_at (switch_next_urcu_qparity E s) = ptr_at s"
  "tls (switch_next_urcu_qparity E s) = tls s"
  "yields (switch_next_urcu_qparity E s) = yields s"
  by (simp_all add: switch_next_urcu_qparity_def log_event_def Let_def)

lemma smp_mb_simps [simp]:
  "urcu_gp_ctr (smp_mb s) = urcu_gp_ctr s"
  "trace (smp_mb s) = trace s @ [Smp_mb]"
  "registry (smp_mb s) = registry s"
  "num_readers (smp_mb s) = num_readers s"
  "alloc_readers (smp_mb s) = alloc_readers s"
  "ptr_at (smp_mb s) = ptr_at s"
  "tls (smp_mb s) = tls s"
  "yields (smp_mb s) = yields s"
  by (simp_all add: smp_mb_def log_event_def)

lemma log_event_simps [simp]:
  "urcu_gp_ctr (log_event e s) = urcu_gp_ctr s"
  "trace (log_event e s) = trace s @ [e]"
  "registry (log_event e s) = registry s"
  "num_readers (log_event e s) = num_readers s"
  "alloc_readers (log_event e s) = alloc_readers s"
  "ptr_at (log_event e s) = ptr_at s"
  "tls (log_event e s) = tls s"
  "yields (log_event e s) = yields s"
  by (simp_all add: log_event_def)

text \<open>What a returning call of \<^verbatim>\<open>synchronize_rcu\<close> went through.\<close>

lemma synchronize_rcu_returns:
  "synchronize_rcu E s = Some (Inr s') \<longleftrightarrow>
     mutex_lock_ret E = 0 \<and> mutex_unlock_ret E = 0 \<and>
     (\<exists>s1 s3 s5 s6.
        force_mb_all_threads E (log_event Mutex_lock s) = Some s1 \<and>
        wait_for_quiescent_state E (smp_mb (switch_next_urcu_qparity E s1)) = Some s3 \<and>
        wait_for_quiescent_state E (smp_mb (switch_next_urcu_qparity E (smp_mb s3))) = Some s5 \<and>
        force_mb_all_threads E s5 = Some s6 \<and> s' = log_event Mutex_unlock s6)"
  by (auto simp: synchronize_rcu_def internal_urcu_lock_def internal_urcu_unlock_def
      bind_eq_Some_conv Let_def split: if_splits)

text \<open>
  C2. In a call of \<^verbatim>\<open>synchronize_rcu\<close> that returns, \<^verbatim>\<open>urcu_gp_ctr\<close> is stored to exactly
  twice: first its value at entry with \<^verbatim>\<open>RCU_GP_CTR_BIT\<close> flipped, then the value at
  entry again. The first wait for quiescence starts and ends with the flipped value,
  the second with the value at entry, which is also the value at return.
\<close>

theorem synchronize_rcu_parity:
  assumes "synchronize_rcu E s = Some (Inr s')"
  shows "urcu_gp_ctr s' = urcu_gp_ctr s \<and>
         take (length (trace s)) (trace s') = trace s \<and>
         gp_stores (drop (length (trace s)) (trace s')) =
           [urcu_gp_ctr s XOR RCU_GP_CTR_BIT E, urcu_gp_ctr s] \<and>
         (\<exists>s1 s3 s5 s6.
            force_mb_all_threads E (log_event Mutex_lock s) = Some s1 \<and>
            urcu_gp_ctr s1 = urcu_gp_ctr s \<and>
            wait_for_quiescent_state E (smp_mb (switch_next_urcu_qparity E s1)) = Some s3 \<and>
            urcu_gp_ctr (smp_mb (switch_next_urcu_qparity E s1)) =
              urcu_gp_ctr s XOR RCU_GP_CTR_BIT E \<and>
            urcu_gp_ctr s3 = urcu_gp_ctr s XOR RCU_GP_CTR_BIT E \<and>
            wait_for_quiescent_state E (smp_mb (switch_next_urcu_qparity E (smp_mb s3))) =
              Some s5 \<and>
            urcu_gp_ctr (smp_mb (switch_next_urcu_qparity E (smp_mb s3))) = urcu_gp_ctr s \<and>
            urcu_gp_ctr s5 = urcu_gp_ctr s \<and>
            force_mb_all_threads E s5 = Some s6 \<and> urcu_gp_ctr s6 = urcu_gp_ctr s \<and>
            s' = log_event Mutex_unlock s6)"
proof -
  from assms obtain s1 s3 s5 s6 where
    f1: "force_mb_all_threads E (log_event Mutex_lock s) = Some s1" and
    w1: "wait_for_quiescent_state E (smp_mb (switch_next_urcu_qparity E s1)) = Some s3" and
    w2: "wait_for_quiescent_state E (smp_mb (switch_next_urcu_qparity E (smp_mb s3))) = Some s5"
    and f2: "force_mb_all_threads E s5 = Some s6" and s': "s' = log_event Mutex_unlock s6"
    unfolding synchronize_rcu_returns by blast
  let ?g = "urcu_gp_ctr s" and ?b = "RCU_GP_CTR_BIT E"
  from force_mb_all_threads_quiet [OF f1] obtain e1 where
    g1: "urcu_gp_ctr s1 = ?g" and t1: "trace s1 = trace s @ [Mutex_lock] @ e1"
    and n1: "gp_stores e1 = []"
    by (auto simp: quiet_def)
  from wait_for_quiescent_state_quiet [OF w1] g1 t1 obtain e3 where
    g3: "urcu_gp_ctr s3 = ?g XOR ?b"
    and t3: "trace s3 = trace s @ [Mutex_lock] @ e1 @ [Store_gp_ctr (?g XOR ?b), Smp_mb] @ e3"
    and n3: "gp_stores e3 = []"
    by (auto simp: quiet_def)
  from wait_for_quiescent_state_quiet [OF w2] g3 t3 obtain e5 where
    g5: "urcu_gp_ctr s5 = ?g"
    and t5: "trace s5 = trace s @ [Mutex_lock] @ e1 @ [Store_gp_ctr (?g XOR ?b), Smp_mb] @ e3 @
                [Smp_mb, Store_gp_ctr ?g, Smp_mb] @ e5"
    and n5: "gp_stores e5 = []"
    by (auto simp: quiet_def xor_twice)
  from force_mb_all_threads_quiet [OF f2] g5 t5 obtain e6 where
    g6: "urcu_gp_ctr s6 = ?g"
    and t6: "trace s6 = trace s @ [Mutex_lock] @ e1 @ [Store_gp_ctr (?g XOR ?b), Smp_mb] @ e3 @
                [Smp_mb, Store_gp_ctr ?g, Smp_mb] @ e5 @ e6"
    and n6: "gp_stores e6 = []"
    by (auto simp: quiet_def)
  have "trace s' = trace s @ ([Mutex_lock] @ e1 @ [Store_gp_ctr (?g XOR ?b), Smp_mb] @ e3 @
                [Smp_mb, Store_gp_ctr ?g, Smp_mb] @ e5 @ e6 @ [Mutex_unlock])"
    by (simp add: s' t6)
  then have "take (length (trace s)) (trace s') = trace s"
    "gp_stores (drop (length (trace s)) (trace s')) = [?g XOR ?b, ?g]"
    by (simp_all add: gp_stores_append n1 n3 n5 n6)
  moreover have "urcu_gp_ctr s' = ?g" by (simp add: s' g6)
  moreover have "urcu_gp_ctr (smp_mb (switch_next_urcu_qparity E s1)) = ?g XOR ?b"
    "urcu_gp_ctr (smp_mb (switch_next_urcu_qparity E (smp_mb s3))) = ?g"
    by (simp_all add: g1 g3 xor_twice)
  ultimately show ?thesis using f1 w1 w2 f2 s' g1 g3 g5 g6 by blast
qed

lemma synchronize_rcu_frame:
  assumes "synchronize_rcu E s = Some (Inr s')"
  shows "registry s' = registry s \<and> num_readers s' = num_readers s \<and>
         alloc_readers s' = alloc_readers s \<and> ptr_at s' = ptr_at s"
proof -
  from assms obtain s1 s3 s5 s6 where
    f1: "force_mb_all_threads E (log_event Mutex_lock s) = Some s1" and
    w1: "wait_for_quiescent_state E (smp_mb (switch_next_urcu_qparity E s1)) = Some s3" and
    w2: "wait_for_quiescent_state E (smp_mb (switch_next_urcu_qparity E (smp_mb s3))) = Some s5"
    and f2: "force_mb_all_threads E s5 = Some s6" and s': "s' = log_event Mutex_unlock s6"
    unfolding synchronize_rcu_returns by blast
  from force_mb_all_threads_quiet [OF f1] wait_for_quiescent_state_quiet [OF w1]
    wait_for_quiescent_state_quiet [OF w2] force_mb_all_threads_quiet [OF f2] s'
  show ?thesis by (simp add: quiet_def)
qed

theorem synchronize_rcu_parity_witness:
  "\<exists>s'. synchronize_rcu
      \<lparr>RCU_GP_CTR_BIT = 4294967296,
        interfere = (\<lambda>n m. m\<lparr>char_at := (\<lambda>_. 0),
                                long_at := (if 3 \<le> n then (\<lambda>_. 0) else long_at m)\<rparr>),
        mutex_lock_ret = 0, mutex_unlock_ret = 0\<rparr>
      ((urcu_start 1 \<lparr>long_at = (\<lambda>_. 0)(16 := 1), char_at = (\<lambda>_. 0)\<rparr> (\<lambda>_. 0))
        \<lparr>registry := Some [\<lparr>tid = 7, urcu_active_readers = 16, need_mb = 24\<rparr>,
                            \<lparr>tid = 0, urcu_active_readers = 0, need_mb = 0\<rparr>,
                            \<lparr>tid = 0, urcu_active_readers = 0, need_mb = 0\<rparr>,
                            \<lparr>tid = 0, urcu_active_readers = 0, need_mb = 0\<rparr>],
          num_readers := 1, alloc_readers := 4\<rparr>) = Some (Inr s') \<and>
     urcu_gp_ctr s' = 1 \<and> gp_stores (trace s') = [4294967297, 1] \<and> yields s' = 5"
proof -
  let ?E = "\<lparr>RCU_GP_CTR_BIT = 4294967296,
        interfere = (\<lambda>n m. m\<lparr>char_at := (\<lambda>_. 0),
                                long_at := (if 3 \<le> n then (\<lambda>_. 0) else long_at m)\<rparr>),
        mutex_lock_ret = 0, mutex_unlock_ret = 0\<rparr>"
  let ?S = "(urcu_start 1 \<lparr>long_at = (\<lambda>_. 0)(16 := 1), char_at = (\<lambda>_. 0)\<rparr> (\<lambda>_. 0))
        \<lparr>registry := Some [\<lparr>tid = 7, urcu_active_readers = 16, need_mb = 24\<rparr>,
                            \<lparr>tid = 0, urcu_active_readers = 0, need_mb = 0\<rparr>,
                            \<lparr>tid = 0, urcu_active_readers = 0, need_mb = 0\<rparr>,
                            \<lparr>tid = 0, urcu_active_readers = 0, need_mb = 0\<rparr>],
          num_readers := 1, alloc_readers := 4\<rparr>"
  have "map_option (map_sum (\<lambda>e. e) yields) (synchronize_rcu ?E ?S) = Some (Inr 5)"
    by code_simp
  then obtain s' where r: "synchronize_rcu ?E ?S = Some (Inr s')" and y: "yields s' = 5"
    by (cases "synchronize_rcu ?E ?S") (auto simp: map_sum_def split: sum.splits)
  have "trace ?S = []" "urcu_gp_ctr ?S = 1" by (simp_all add: urcu_start_def)
  with synchronize_rcu_parity [OF r]
  have "urcu_gp_ctr s' = 1" "gp_stores (trace s') = [4294967297, 1]" by simp_all
  with r y show ?thesis by blast
qed

text \<open>
  C5. With no reader registered, a call of \<^verbatim>\<open>synchronize_rcu\<close> on which the mutex
  calls succeed returns without having let any other thread run, and the state at
  return is the state at entry but for the events of the call: the lock, the two
  stores to \<^verbatim>\<open>urcu_gp_ctr\<close> that cancel, the fences, the unlock. Both waits for
  quiescence return their state as it is; \<^verbatim>\<open>force_mb_all_threads\<close> returns at once on
  the \<^verbatim>\<open>NULL\<close> registry and after its closing fence on an allocated one without entries
  in use.
\<close>

theorem synchronize_rcu_no_readers:
  assumes "registry s = None \<or> num_readers s = 0"
    and "mutex_lock_ret E = 0" and "mutex_unlock_ret E = 0"
  shows "synchronize_rcu E s =
           Some (Inr (s\<lparr>trace := trace s @
             (if registry s = None
              then [Mutex_lock,
                    Store_gp_ctr (urcu_gp_ctr s XOR RCU_GP_CTR_BIT E), Smp_mb, Smp_mb,
                    Store_gp_ctr (urcu_gp_ctr s), Smp_mb, Mutex_unlock]
              else [Mutex_lock, Smp_mb,
                    Store_gp_ctr (urcu_gp_ctr s XOR RCU_GP_CTR_BIT E), Smp_mb, Smp_mb,
                    Store_gp_ctr (urcu_gp_ctr s), Smp_mb, Smp_mb, Mutex_unlock])\<rparr>)) \<and>
         wait_for_quiescent_state E s = Some s \<and>
         force_mb_all_threads E s = Some (if registry s = None then s else smp_mb s) \<and>
         (\<exists>s'. synchronize_rcu E s = Some (Inr s') \<and>
            urcu_gp_ctr s' = urcu_gp_ctr s \<and> registry s' = registry s \<and>
            num_readers s' = num_readers s \<and> alloc_readers s' = alloc_readers s \<and>
            tls s' = tls s \<and> ptr_at s' = ptr_at s \<and> yields s' = yields s)"
proof -
  have l: "live_readers t = []"
    if "registry t = registry s" "num_readers t = num_readers s" for t
    using assms(1) that by (auto simp: live_readers_def split: option.splits)
  have w: "wait_for_quiescent_state E t = Some t"
    if "registry t = registry s" "num_readers t = num_readers s" for t
    using l [OF that] by (simp add: wait_for_quiescent_state_def)
  have f: "force_mb_all_threads E t = Some (if registry s = None then t else smp_mb t)"
    if "registry t = registry s" "num_readers t = num_readers s" for t
    using l [OF that] that by (simp add: force_mb_all_threads_def)
  have "synchronize_rcu E s =
           Some (Inr (s\<lparr>trace := trace s @
             (if registry s = None
              then [Mutex_lock,
                    Store_gp_ctr (urcu_gp_ctr s XOR RCU_GP_CTR_BIT E), Smp_mb, Smp_mb,
                    Store_gp_ctr (urcu_gp_ctr s), Smp_mb, Mutex_unlock]
              else [Mutex_lock, Smp_mb,
                    Store_gp_ctr (urcu_gp_ctr s XOR RCU_GP_CTR_BIT E), Smp_mb, Smp_mb,
                    Store_gp_ctr (urcu_gp_ctr s), Smp_mb, Smp_mb, Mutex_unlock])\<rparr>))"
    using assms(2,3)
    by (simp add: synchronize_rcu_def internal_urcu_lock_def internal_urcu_unlock_def
        w f Let_def)
      (simp add: switch_next_urcu_qparity_def smp_mb_def log_event_def Let_def xor_twice)
  moreover have "wait_for_quiescent_state E s = Some s" by (rule w) simp_all
  moreover have "force_mb_all_threads E s = Some (if registry s = None then s else smp_mb s)"
    by (rule f) simp_all
  ultimately show ?thesis by simp
qed

theorem synchronize_rcu_no_readers_witness:
  "(registry (urcu_start 1 \<lparr>long_at = (\<lambda>_. 5), char_at = (\<lambda>_. 1)\<rparr> (\<lambda>_. 0)) = None \<or>
    num_readers (urcu_start 1 \<lparr>long_at = (\<lambda>_. 5), char_at = (\<lambda>_. 1)\<rparr> (\<lambda>_. 0)) = 0) \<and>
   (\<exists>s'. synchronize_rcu
      \<lparr>RCU_GP_CTR_BIT = 4294967296, interfere = (\<lambda>n m. m),
        mutex_lock_ret = 0, mutex_unlock_ret = 0\<rparr>
      (urcu_start 1 \<lparr>long_at = (\<lambda>_. 5), char_at = (\<lambda>_. 1)\<rparr> (\<lambda>_. 0)) = Some (Inr s') \<and>
      urcu_gp_ctr s' = 1 \<and> registry s' = None \<and> yields s' = 0 \<and>
      tls s' = \<lparr>long_at = (\<lambda>_. 5), char_at = (\<lambda>_. 1)\<rparr> \<and>
      trace s' = [Mutex_lock, Store_gp_ctr 4294967297, Smp_mb, Smp_mb, Store_gp_ctr 1,
                  Smp_mb, Mutex_unlock])"
proof -
  let ?E = "\<lparr>RCU_GP_CTR_BIT = 4294967296, interfere = (\<lambda>n m. m),
        mutex_lock_ret = 0, mutex_unlock_ret = 0\<rparr>"
  let ?S = "urcu_start 1 \<lparr>long_at = (\<lambda>_. 5), char_at = (\<lambda>_. 1)\<rparr> (\<lambda>_. 0)"
  have h: "registry ?S = None \<or> num_readers ?S = 0" by (simp add: urcu_start_def)
  have e: "mutex_lock_ret ?E = 0" "mutex_unlock_ret ?E = 0" by simp_all
  from synchronize_rcu_no_readers [OF h e] h show ?thesis
    by (simp add: urcu_start_def)
qed

text \<open>
  C6. \<^verbatim>\<open>rcu_publish_content_sym(p, v)\<close> exchanges \<open>v\<close> into the cell \<open>p\<close>, runs
  \<^verbatim>\<open>synchronize_rcu\<close> on the state after the exchange, and returns when that call
  returns; what it returns is the value the cell held before the exchange.
\<close>

theorem rcu_publish_content_sym_spec:
  "rcu_publish_content_sym E p v s =
     map_option (map_sum (\<lambda>e. e) (\<lambda>s'. (ptr_at s p, s')))
       (synchronize_rcu E (snd (u_rcu_xchg_pointer p v s))) \<and>
   fst (u_rcu_xchg_pointer p v s) = ptr_at s p \<and>
   ptr_at (snd (u_rcu_xchg_pointer p v s)) = (ptr_at s)(p := v) \<and>
   (\<forall>r s'. rcu_publish_content_sym E p v s = Some (Inr (r, s')) \<longrightarrow>
      r = ptr_at s p \<and> ptr_at s' = (ptr_at s)(p := v) \<and>
      synchronize_rcu E (snd (u_rcu_xchg_pointer p v s)) = Some (Inr s'))"
proof -
  let ?s1 = "snd (u_rcu_xchg_pointer p v s)"
  have x: "u_rcu_xchg_pointer p v s = (ptr_at s p, ?s1)"
    "ptr_at ?s1 = (ptr_at s)(p := v)"
    by (simp_all add: u_rcu_xchg_pointer_def wmb_def Let_def)
  have eq: "rcu_publish_content_sym E p v s =
     map_option (map_sum (\<lambda>e. e) (\<lambda>s'. (ptr_at s p, s'))) (synchronize_rcu E ?s1)"
    unfolding rcu_publish_content_sym_def
    by (subst x(1)) (simp split: option.splits sum.splits)
  have "r = ptr_at s p \<and> ptr_at s' = (ptr_at s)(p := v) \<and>
      synchronize_rcu E ?s1 = Some (Inr s')"
    if "rcu_publish_content_sym E p v s = Some (Inr (r, s'))" for r s'
  proof -
    from that eq obtain x2 where x2: "synchronize_rcu E ?s1 = Some x2"
      "map_sum (\<lambda>e. e) (\<lambda>s'. (ptr_at s p, s')) x2 = Inr (r, s')"
      by (auto simp: map_option_case split: option.splits)
    from x2(2) have "x2 = Inr s' \<and> r = ptr_at s p" by (cases x2) auto
    then have "x2 = Inr s'" "r = ptr_at s p" by simp_all
    with x2(1) have "synchronize_rcu E ?s1 = Some (Inr s')" "r = ptr_at s p" by simp_all
    with synchronize_rcu_frame [OF this(1)] x(2) show ?thesis by simp
  qed
  moreover have "fst (u_rcu_xchg_pointer p v s) = ptr_at s p"
    by (simp add: u_rcu_xchg_pointer_def wmb_def Let_def)
  ultimately show ?thesis using eq x(2) by blast
qed

theorem rcu_publish_content_sym_spec_witness:
  "\<exists>s'. rcu_publish_content_sym
      \<lparr>RCU_GP_CTR_BIT = 4294967296,
        interfere = (\<lambda>n m. if 2 \<le> n then m\<lparr>char_at := (\<lambda>_. 0)\<rparr> else m),
        mutex_lock_ret = 0, mutex_unlock_ret = 0\<rparr> 64 4096
      ((urcu_start 1 \<lparr>long_at = (\<lambda>_. 0), char_at = (\<lambda>_. 0)\<rparr> ((\<lambda>_. 0)(64 := 8192)))
        \<lparr>registry := Some [\<lparr>tid = 7, urcu_active_readers = 16, need_mb = 24\<rparr>,
                            \<lparr>tid = 0, urcu_active_readers = 0, need_mb = 0\<rparr>,
                            \<lparr>tid = 0, urcu_active_readers = 0, need_mb = 0\<rparr>,
                            \<lparr>tid = 0, urcu_active_readers = 0, need_mb = 0\<rparr>],
          num_readers := 1, alloc_readers := 4\<rparr>) = Some (Inr (8192, s')) \<and>
     ptr_at s' 64 = 4096"
proof -
  let ?E = "\<lparr>RCU_GP_CTR_BIT = 4294967296,
        interfere = (\<lambda>n m. if 2 \<le> n then m\<lparr>char_at := (\<lambda>_. 0)\<rparr> else m),
        mutex_lock_ret = 0, mutex_unlock_ret = 0\<rparr>"
  let ?S = "(urcu_start 1 \<lparr>long_at = (\<lambda>_. 0), char_at = (\<lambda>_. 0)\<rparr> ((\<lambda>_. 0)(64 := 8192)))
        \<lparr>registry := Some [\<lparr>tid = 7, urcu_active_readers = 16, need_mb = 24\<rparr>,
                            \<lparr>tid = 0, urcu_active_readers = 0, need_mb = 0\<rparr>,
                            \<lparr>tid = 0, urcu_active_readers = 0, need_mb = 0\<rparr>,
                            \<lparr>tid = 0, urcu_active_readers = 0, need_mb = 0\<rparr>],
          num_readers := 1, alloc_readers := 4\<rparr>"
  have "map_option (map_sum (\<lambda>e. e) fst) (rcu_publish_content_sym ?E 64 4096 ?S) =
        Some (Inr 8192)"
    by code_simp
  then obtain s' where r: "rcu_publish_content_sym ?E 64 4096 ?S = Some (Inr (8192, s'))"
    by (cases "rcu_publish_content_sym ?E 64 4096 ?S")
      (auto simp: map_sum_def split: sum.splits)
  from rcu_publish_content_sym_spec [of ?E 64 4096 ?S] r
  have "ptr_at s' = (ptr_at ?S)(64 := 4096)" by blast
  then have "ptr_at s' 64 = 4096" by simp
  with r show ?thesis by blast
qed

end
